theory Spec2Isabelle
  imports Main "HOL-Library.AList"
begin

chapter \<open>Force10: the optimistic navigation engine\<close>

text \<open>
  A shallow embedding of the client package of Force10 (\<^verbatim>\<open>packages/client/src\<close>):
  the route matcher (\<^verbatim>\<open>matcher.ts\<close>), the page cache (\<^verbatim>\<open>cache.ts\<close>),
  the preflight evaluator (\<^verbatim>\<open>preflight.ts\<close>), the navigator (\<^verbatim>\<open>navigator.ts\<close>)
  and the patch of \<^verbatim>\<open>router.visit\<close> (\<^verbatim>\<open>patch.ts\<close>).

  Strings are \<^typ>\<open>string\<close>; \<^verbatim>\<open>Date.now()\<close> is an explicit argument \<open>now\<close> (milliseconds,
  an \<^typ>\<open>int\<close>); mutable module state is passed explicitly; an exception is the \<open>Inl\<close> of a
  sum; a loop that may fail to return yields \<open>None\<close>.
\<close>

section \<open>JavaScript strings\<close>

text \<open>\<^verbatim>\<open>str.split(c)\<close> for a one-character separator: never empty, \<^verbatim>\<open>''.split('/')\<close> is \<^verbatim>\<open>['']\<close>.\<close>

fun split :: "char \<Rightarrow> string \<Rightarrow> string list" where
  "split c [] = [[]]"
| "split c (x # xs) =
     (if x = c then [] # split c xs
      else (case split c xs of [] \<Rightarrow> [[x]] | y # ys \<Rightarrow> (x # y) # ys))"

text \<open>\<^verbatim>\<open>str.split(c)[0]\<close>: the part before the first separator.\<close>

definition split_first :: "char \<Rightarrow> string \<Rightarrow> string" where
  "split_first c s = (case split c s of [] \<Rightarrow> [] | p # _ \<Rightarrow> p)"

definition startsWith :: "string \<Rightarrow> string \<Rightarrow> bool" where
  "startsWith s p = (take (length p) s = p)"

definition endsWith :: "string \<Rightarrow> string \<Rightarrow> bool" where
  "endsWith s p = (length p \<le> length s \<and> drop (length s - length p) s = p)"

text \<open>\<^verbatim>\<open>str.slice(1)\<close> and \<^verbatim>\<open>str.slice(1, -1)\<close>.\<close>

definition slice1 :: "string \<Rightarrow> string" where
  "slice1 s = drop 1 s"

definition slice1_m1 :: "string \<Rightarrow> string" where
  "slice1_m1 s = take (length s - 2) (drop 1 s)"

section \<open>Regular expressions\<close>

text \<open>
  The code builds the source text of a regular expression and hands it to \<^verbatim>\<open>new RegExp\<close>.
  The model keeps the text and gives \<^verbatim>\<open>RegExp\<close> a semantics for the syntax that the three
  compilers of the code can emit: literal characters, identity escapes \<^verbatim>\<open>\c\<close>, \<^verbatim>\<open>.\<close>,
  the class \<^verbatim>\<open>[^/]\<close>, groups \<^verbatim>\<open>(...)\<close> and \<^verbatim>\<open>(?:...)\<close>, the quantifiers \<^verbatim>\<open>*\<close>,
  \<^verbatim>\<open>+\<close>, \<^verbatim>\<open>?\<close> (a following \<^verbatim>\<open>?\<close> makes them lazy) and the assertions \<^verbatim>\<open>^\<close>, \<^verbatim>\<open>$\<close>.
  A quantifier with nothing to repeat is a \<open>SyntaxError\<close>, as in JavaScript; syntax that none
  of the compilers emits is \<open>Unsupported\<close>.
\<close>

datatype regex_error = SyntaxError | Unsupported

datatype cls = Lit char | Dot | NotSlash

datatype rx =
    One cls
  | Many cls nat bool
  | Opt rx bool
  | Group "nat option" "rx list"
  | Bol
  | Eol

datatype tok = TAtom cls | TOpen bool | TClose | TQuant char | TBol | TEol

text \<open>The characters of the class \<^verbatim>\<open>[.*+?^${}()|[\]\\]\<close>; \<open>CHR 0x5C\<close> is the backslash.\<close>

definition syntax_chars :: "char list" where
  "syntax_chars = [CHR ''.'', CHR ''*'', CHR ''+'', CHR ''?'', CHR ''^'', CHR ''$'', CHR ''{'',
     CHR ''}'', CHR ''('', CHR '')'', CHR ''|'', CHR ''['', CHR '']'', CHR 0x5C]"

text \<open>The token that starts with \<open>c\<close>, and how many characters after \<open>c\<close> belong to it.\<close>

definition lex1 :: "char \<Rightarrow> string \<Rightarrow> regex_error + tok \<times> nat" where
  "lex1 c cs =
     (if c = CHR 0x5C then
        (case cs of
           [] \<Rightarrow> Inl SyntaxError
         | d # _ \<Rightarrow> if d \<in> set syntax_chars \<or> d = CHR ''/'' then Inr (TAtom (Lit d), 1)
                   else Inl Unsupported)
      else if c = CHR ''.'' then Inr (TAtom Dot, 0)
      else if c = CHR ''['' then
        (if take 3 cs = ''^/]'' then Inr (TAtom NotSlash, 3) else Inl Unsupported)
      else if c = CHR ''('' then
        (if take 2 cs = ''?:'' then Inr (TOpen False, 2) else Inr (TOpen True, 0))
      else if c = CHR '')'' then Inr (TClose, 0)
      else if c = CHR ''*'' \<or> c = CHR ''+'' \<or> c = CHR ''?'' then Inr (TQuant c, 0)
      else if c = CHR ''^'' then Inr (TBol, 0)
      else if c = CHR ''$'' then Inr (TEol, 0)
      else if c = CHR ''{'' \<or> c = CHR ''}'' \<or> c = CHR '']'' \<or> c = CHR ''|'' then Inl Unsupported
      else Inr (TAtom (Lit c), 0))"

fun lex_rx :: "string \<Rightarrow> regex_error + tok list" where
  "lex_rx [] = Inr []"
| "lex_rx (c # cs) =
     (case lex1 c cs of
        Inl e \<Rightarrow> Inl e
      | Inr (t, n) \<Rightarrow> (case lex_rx (drop n cs) of Inl e \<Rightarrow> Inl e | Inr ts \<Rightarrow> Inr (t # ts)))"

text \<open>
  A quantifier applies to the term before it. \<open>Many k lo greedy\<close> repeats a one-character
  class at least \<open>lo\<close> times; the code never quantifies a group with \<^verbatim>\<open>*\<close> or \<^verbatim>\<open>+\<close>.
\<close>

definition quantify :: "char \<Rightarrow> rx \<Rightarrow> regex_error + rx" where
  "quantify q r =
     (case r of
        One k \<Rightarrow> Inr (if q = CHR ''*'' then Many k 0 True
                       else if q = CHR ''+'' then Many k 1 True
                       else Opt (One k) True)
      | Group i rs \<Rightarrow> (if q = CHR ''?'' then Inr (Opt (Group i rs) True) else Inl Unsupported)
      | Many k n g \<Rightarrow> (if q = CHR ''?'' \<and> g then Inr (Many k n False) else Inl SyntaxError)
      | Opt r' g \<Rightarrow> (if q = CHR ''?'' \<and> g then Inr (Opt r' False) else Inl SyntaxError)
      | Bol \<Rightarrow> Inl SyntaxError
      | Eol \<Rightarrow> Inl SyntaxError)"

text \<open>
  \<open>parse_toks ts n cur stk\<close>: \<open>n\<close> capturing groups were opened so far, \<open>cur\<close> holds the terms
  of the innermost open sequence (newest first), \<open>stk\<close> the enclosing open groups.
\<close>

fun parse_toks :: "tok list \<Rightarrow> nat \<Rightarrow> rx list \<Rightarrow> (nat option \<times> rx list) list
    \<Rightarrow> regex_error + rx list" where
  "parse_toks [] n cur stk = (if stk = [] then Inr (rev cur) else Inl SyntaxError)"
| "parse_toks (TAtom k # ts) n cur stk = parse_toks ts n (One k # cur) stk"
| "parse_toks (TOpen True # ts) n cur stk = parse_toks ts (Suc n) [] ((Some (Suc n), cur) # stk)"
| "parse_toks (TOpen False # ts) n cur stk = parse_toks ts n [] ((None, cur) # stk)"
| "parse_toks (TClose # ts) n cur [] = Inl SyntaxError"
| "parse_toks (TClose # ts) n cur ((i, outer) # stk) =
     parse_toks ts n (Group i (rev cur) # outer) stk"
| "parse_toks (TQuant q # ts) n [] stk = Inl SyntaxError"
| "parse_toks (TQuant q # ts) n (r # rs) stk =
     (case quantify q r of Inl e \<Rightarrow> Inl e | Inr r' \<Rightarrow> parse_toks ts n (r' # rs) stk)"
| "parse_toks (TBol # ts) n cur stk = parse_toks ts n (Bol # cur) stk"
| "parse_toks (TEol # ts) n cur stk = parse_toks ts n (Eol # cur) stk"

text \<open>\<^verbatim>\<open>new RegExp(src)\<close>.\<close>

definition RegExp_new :: "string \<Rightarrow> regex_error + rx list" where
  "RegExp_new src = (case lex_rx src of Inl e \<Rightarrow> Inl e | Inr ts \<Rightarrow> parse_toks ts 0 [] [])"

text \<open>
  Without the \<^verbatim>\<open>s\<close> flag \<^verbatim>\<open>.\<close> matches every character but a line terminator; of these
  a byte string has the line feed and the carriage return.
\<close>

definition cls_test :: "cls \<Rightarrow> char \<Rightarrow> bool" where
  "cls_test k c =
     (case k of Lit d \<Rightarrow> c = d | Dot \<Rightarrow> c \<noteq> CHR 0x0A \<and> c \<noteq> CHR 0x0D | NotSlash \<Rightarrow> c \<noteq> CHR ''/'')"

text \<open>
  Backtracking matching: a state is the position, the rest of the input and the captures
  (group number, text); a term maps a state to the states after it, in the order in which
  JavaScript tries them (a greedy quantifier tries the longest repetition first).
\<close>

type_synonym mstate = "nat \<times> string \<times> (nat \<times> string) list"

fun m_rx :: "rx \<Rightarrow> mstate \<Rightarrow> mstate list"
  and m_seq :: "rx list \<Rightarrow> mstate \<Rightarrow> mstate list" where
  "m_rx (One k) (pos, s, caps) =
     (case s of [] \<Rightarrow> [] | c # cs \<Rightarrow> if cls_test k c then [(Suc pos, cs, caps)] else [])"
| "m_rx (Many k lo greedy) (pos, s, caps) =
     (let hi = length (takeWhile (cls_test k) s);
          counts = (if greedy then rev [lo ..< Suc hi] else [lo ..< Suc hi])
      in map (\<lambda>j. (pos + j, drop j s, caps)) counts)"
| "m_rx (Opt r greedy) st = (if greedy then m_rx r st @ [st] else st # m_rx r st)"
| "m_rx (Group i rs) (pos, s, caps) =
     (case i of
        None \<Rightarrow> m_seq rs (pos, s, caps)
      | Some g \<Rightarrow> map (\<lambda>(pos', s', caps'). (pos', s', AList.update g (take (pos' - pos) s) caps'))
                      (m_seq rs (pos, s, caps)))"
| "m_rx Bol (pos, s, caps) = (if pos = 0 then [(pos, s, caps)] else [])"
| "m_rx Eol (pos, s, caps) = (if s = [] then [(pos, s, caps)] else [])"
| "m_seq [] st = [st]"
| "m_seq (r # rs) st = concat (map (m_seq rs) (m_rx r st))"

text \<open>\<^verbatim>\<open>regex.exec(s)\<close>: the captures of the first match, trying each start position in turn.\<close>

fun exec_from :: "rx list \<Rightarrow> nat \<Rightarrow> string \<Rightarrow> (nat \<times> string) list option" where
  "exec_from rs pos [] = (case m_seq rs (pos, [], []) of [] \<Rightarrow> None | (_, _, caps) # _ \<Rightarrow> Some caps)"
| "exec_from rs pos (c # cs) =
     (case m_seq rs (pos, c # cs, []) of
        [] \<Rightarrow> exec_from rs (Suc pos) cs
      | (_, _, caps) # _ \<Rightarrow> Some caps)"

definition RegExp_exec :: "rx list \<Rightarrow> string \<Rightarrow> (nat \<times> string) list option" where
  "RegExp_exec rs s = exec_from rs 0 s"

definition RegExp_test :: "rx list \<Rightarrow> string \<Rightarrow> bool" where
  "RegExp_test rs s = (RegExp_exec rs s \<noteq> None)"

section \<open>Glob patterns\<close>

text \<open>
  \<^verbatim>\<open>escapeRegex\<close> (\<^verbatim>\<open>matcher.ts\<close>): \<^verbatim>\<open>str.replace(/[.*+?^${}()|[\]\\]/g, '\\$&')\<close> puts a
  backslash before every character of the class.
\<close>

definition escapeRegex :: "string \<Rightarrow> string" where
  "escapeRegex str = concat (map (\<lambda>c. if c \<in> set syntax_chars then [CHR 0x5C, c] else [c]) str)"

text \<open>
  \<^verbatim>\<open>excludePatternToRegex\<close> (\<^verbatim>\<open>matcher.ts\<close>): the loop appends \<^verbatim>\<open>.*\<close> for \<^verbatim>\<open>*\<close>, \<^verbatim>\<open>.\<close> for
  \<^verbatim>\<open>?\<close> and the escaped character otherwise; \<open>excludePatternSource\<close> is the text given to
  \<^verbatim>\<open>new RegExp\<close>.
\<close>

definition excludePatternSource :: "string \<Rightarrow> string" where
  "excludePatternSource pattern =
     ''^'' @ concat (map (\<lambda>ch. if ch = CHR ''*'' then ''.*''
                              else if ch = CHR ''?'' then ''.''
                              else escapeRegex [ch]) pattern) @ ''$''"

definition excludePatternToRegex :: "string \<Rightarrow> regex_error + rx list" where
  "excludePatternToRegex pattern = RegExp_new (excludePatternSource pattern)"

text \<open>
  \<^verbatim>\<open>patternToRegex\<close> (\<^verbatim>\<open>cache.ts\<close>): first \<^verbatim>\<open>pattern.replace(/[.+^${}()|[\]\\]/g, '\\$&')\<close>, a
  class without \<^verbatim>\<open>*\<close> and \<^verbatim>\<open>?\<close>, then \<^verbatim>\<open>escaped.replace(/\*/g, '.*')\<close>.
\<close>

definition cache_escape_chars :: "char list" where
  "cache_escape_chars = [CHR ''.'', CHR ''+'', CHR ''^'', CHR ''$'', CHR ''{'', CHR ''}'',
     CHR ''('', CHR '')'', CHR ''|'', CHR ''['', CHR '']'', CHR 0x5C]"

definition patternSource :: "string \<Rightarrow> string" where
  "patternSource pattern =
     (let escaped = concat (map (\<lambda>c. if c \<in> set cache_escape_chars then [CHR 0x5C, c] else [c]) pattern);
          withWildcards = concat (map (\<lambda>c. if c = CHR ''*'' then ''.*'' else [c]) escaped)
      in ''^'' @ withWildcards @ ''$'')"

definition patternToRegex :: "string \<Rightarrow> regex_error + rx list" where
  "patternToRegex pattern = RegExp_new (patternSource pattern)"

section \<open>Page data\<close>

text \<open>
  \<^verbatim>\<open>PreflightResult\<close>: the verdict of the server for one middleware; \<open>expiresAt\<close> is in epoch
  seconds and optional.
\<close>

record PreflightResult =
  pass :: bool
  expiresAt :: "int option"

text \<open>
  Page props are a \<^verbatim>\<open>Record<string, unknown>\<close>: an association list in key order. A value is
  opaque application data or one of the three blocks the engine reads: \<^verbatim>\<open>_force10\<close> (with
  its optional \<^verbatim>\<open>preflight\<close> table), \<^verbatim>\<open>_force10_server\<close> (with its optional \<^verbatim>\<open>invalidate\<close>
  list) and \<^verbatim>\<open>auth\<close> (with its optional \<^verbatim>\<open>user\<close>).
\<close>

datatype pvalue =
    Data string
  | Force10Block "(string \<times> PreflightResult) list option"
  | Force10ServerBlock "string list option"
  | AuthBlock "string option"

type_synonym props = "(string \<times> pvalue) list"

text \<open>\<^verbatim>\<open>props?._force10?.preflight\<close>, \<^verbatim>\<open>props?._force10_server?.invalidate\<close>, \<^verbatim>\<open>props?.auth?.user\<close>.\<close>

definition props_preflight :: "props \<Rightarrow> (string \<times> PreflightResult) list option" where
  "props_preflight p = (case map_of p ''_force10'' of Some (Force10Block d) \<Rightarrow> d | _ \<Rightarrow> None)"

definition props_invalidate :: "props \<Rightarrow> string list option" where
  "props_invalidate p =
     (case map_of p ''_force10_server'' of Some (Force10ServerBlock d) \<Rightarrow> d | _ \<Rightarrow> None)"

definition props_auth_user :: "props \<Rightarrow> string option" where
  "props_auth_user p = (case map_of p ''auth'' of Some (AuthBlock u) \<Rightarrow> u | _ \<Rightarrow> None)"

text \<open>The object spread \<^verbatim>\<open>{ ...a, ...b }\<close>: the keys of \<open>b\<close> override or are appended.\<close>

definition spread :: "props \<Rightarrow> props \<Rightarrow> props" where
  "spread a b = fold (\<lambda>(k, v). AList.update k v) b a"

section \<open>The page cache (\<^verbatim>\<open>cache.ts\<close>)\<close>

record CachedPage =
  props :: props
  timestamp :: int
  url :: string
  component :: string

text \<open>
  The store is a \<^verbatim>\<open>Map<string, CachedPage>\<close>, which iterates in insertion order: an
  association list, oldest entry first.
\<close>

type_synonym store = "(string \<times> CachedPage) list"

definition store_get :: "store \<Rightarrow> string \<Rightarrow> CachedPage option" where
  "store_get s k = map_of s k"

definition store_delete :: "string \<Rightarrow> store \<Rightarrow> store" where
  "store_delete k s = filter (\<lambda>(k', _). k' \<noteq> k) s"

text \<open>\<^verbatim>\<open>Map.set\<close>: a present key keeps its position, a new key goes to the end.\<close>

definition store_set :: "string \<Rightarrow> CachedPage \<Rightarrow> store \<Rightarrow> store" where
  "store_set k v s = AList.update k v s"

definition isExpired :: "int \<Rightarrow> int \<Rightarrow> CachedPage \<Rightarrow> bool" where
  "isExpired ttl now entry = (now - timestamp entry > ttl)"

text \<open>
  \<^verbatim>\<open>evictIfNeeded\<close>: \<^verbatim>\<open>while (store.size > maxEntries)\<close> delete the first key. On an empty
  store the first key is \<^verbatim>\<open>undefined\<close> and deleting it changes nothing, so with a negative
  \<open>maxEntries\<close> the loop does not end: the result is \<open>None\<close>.
\<close>

function evictIfNeeded :: "int \<Rightarrow> store \<Rightarrow> store option" where
  "evictIfNeeded maxEntries [] = (if 0 > maxEntries then None else Some [])"
| "evictIfNeeded maxEntries ((oldestKey, v) # rest) =
     (if int (length ((oldestKey, v) # rest)) > maxEntries
      then evictIfNeeded maxEntries (store_delete oldestKey ((oldestKey, v) # rest))
      else Some ((oldestKey, v) # rest))"
  by pat_completeness auto
termination
  by (relation "measure (\<lambda>(m, s). length s)") (auto simp: store_delete_def le_imp_less_Suc)

definition cache_get :: "int \<Rightarrow> int \<Rightarrow> store \<Rightarrow> string \<Rightarrow> CachedPage option" where
  "cache_get ttl now s u =
     (case store_get s u of
        None \<Rightarrow> None
      | Some entry \<Rightarrow> if isExpired ttl now entry then None else Some entry)"

definition cache_set :: "int \<Rightarrow> string \<Rightarrow> CachedPage \<Rightarrow> store \<Rightarrow> store option" where
  "cache_set maxEntries u page s = evictIfNeeded maxEntries (store_set u page (store_delete u s))"

definition cache_remove :: "string \<Rightarrow> store \<Rightarrow> store" where
  "cache_remove u s = store_delete u s"

definition cache_clear :: "store \<Rightarrow> store" where
  "cache_clear s = []"

definition getOrStale :: "int \<Rightarrow> int \<Rightarrow> store \<Rightarrow> string \<Rightarrow> (CachedPage \<times> bool) option" where
  "getOrStale ttl now s u =
     (case store_get s u of
        None \<Rightarrow> None
      | Some entry \<Rightarrow> Some (entry, isExpired ttl now entry))"

text \<open>
  \<^verbatim>\<open>invalidateByPattern\<close>: the pattern is compiled first (and a \<open>SyntaxError\<close> leaves the
  store as it was), then every key of a snapshot of the keys is tested and deleted.
\<close>

definition invalidateByPattern :: "string \<Rightarrow> store \<Rightarrow> regex_error + store" where
  "invalidateByPattern pattern s =
     (case patternToRegex pattern of
        Inl e \<Rightarrow> Inl e
      | Inr regex \<Rightarrow>
          Inr (fold (\<lambda>key st. if RegExp_test regex key then store_delete key st else st)
                 (map fst s) s))"

text \<open>\<^verbatim>\<open>updateProps\<close> mutates the entry in place, which keeps its position in the store.\<close>

definition updateProps :: "int \<Rightarrow> string \<Rightarrow> props \<Rightarrow> store \<Rightarrow> store" where
  "updateProps now u p s =
     (case store_get s u of
        None \<Rightarrow> s
      | Some entry \<Rightarrow> store_set u (entry\<lparr>props := spread (props entry) p, timestamp := now\<rparr>) s)"

section \<open>The preflight evaluator (\<^verbatim>\<open>preflight.ts\<close>)\<close>

text \<open>
  \<^verbatim>\<open>_data\<close> is the object last given to \<^verbatim>\<open>update\<close>, a plain object (an object literal, or
  what \<^verbatim>\<open>JSON.parse\<close> made of the response): its own properties are an association list from
  middleware name to verdict, and its prototype is \<^verbatim>\<open>Object.prototype\<close>. Reading \<^verbatim>\<open>_data[mw]\<close>
  gives the own property when there is one; otherwise, for the names of the members of
  \<^verbatim>\<open>Object.prototype\<close>, the inherited member (a function, or for \<^verbatim>\<open>__proto__\<close> the prototype
  itself: truthy, and without a \<^verbatim>\<open>pass\<close> field); otherwise \<^verbatim>\<open>undefined\<close>.
\<close>

type_synonym preflight_data = "(string \<times> PreflightResult) list"

definition Object_prototype_names :: "string list" where
  "Object_prototype_names =
     [''constructor'', ''__defineGetter__'', ''__defineSetter__'', ''hasOwnProperty'',
      ''__lookupGetter__'', ''__lookupSetter__'', ''isPrototypeOf'', ''propertyIsEnumerable'',
      ''toString'', ''valueOf'', ''__proto__'', ''toLocaleString'']"

datatype 'a property = Own 'a | Inherited | Undefined

definition get_property :: "(string \<times> 'a) list \<Rightarrow> string \<Rightarrow> 'a property" where
  "get_property obj key =
     (case map_of obj key of
        Some v \<Rightarrow> Own v
      | None \<Rightarrow> if key \<in> set Object_prototype_names then Inherited else Undefined)"

text \<open>
  \<^verbatim>\<open>check\<close> walks the names with the flag \<^verbatim>\<open>hasAnyData\<close>: \<^verbatim>\<open>if (!result) continue\<close> skips a
  name that reads as \<^verbatim>\<open>undefined\<close>; \<^verbatim>\<open>if (!result.pass) return false\<close> fails a verdict that
  does not pass, and an inherited member, whose \<^verbatim>\<open>pass\<close> is \<^verbatim>\<open>undefined\<close>;
  \<^verbatim>\<open>Math.floor(Date.now() / 1000)\<close> is \<open>now div 1000\<close>, and a missing or zero \<open>expiresAt\<close> is
  falsy.
\<close>

definition preflight_update :: "preflight_data \<Rightarrow> preflight_data \<Rightarrow> preflight_data" where
  "preflight_update new_data old_data = new_data"

fun check_loop :: "bool \<Rightarrow> preflight_data \<Rightarrow> int \<Rightarrow> string list \<Rightarrow> bool option" where
  "check_loop hasAnyData pdata now [] = (if hasAnyData then Some True else None)"
| "check_loop hasAnyData pdata now (mw # rest) =
     (case get_property pdata mw of
        Undefined \<Rightarrow> check_loop hasAnyData pdata now rest
      | Inherited \<Rightarrow> Some False
      | Own result \<Rightarrow>
          if \<not> pass result then Some False
          else (case expiresAt result of
                  None \<Rightarrow> check_loop True pdata now rest
                | Some e \<Rightarrow> if e \<noteq> 0 \<and> now div 1000 \<ge> e then Some False
                            else check_loop True pdata now rest))"

definition check :: "preflight_data \<Rightarrow> int \<Rightarrow> string list \<Rightarrow> bool option" where
  "check pdata now middleware = check_loop False pdata now middleware"

section \<open>Configuration and manifest (\<^verbatim>\<open>types.ts\<close>)\<close>

text \<open>
  \<^verbatim>\<open>Force10Config\<close> with its nested objects flattened; the constant \<^verbatim>\<open>cache.strategy\<close> is
  left out. \<open>cache_ttl\<close> is in milliseconds.
\<close>

record Force10Config =
  enabled :: bool
  cache_ttl :: int
  cache_maxEntries :: int
  loading_suppressProgress :: bool
  debug :: bool
  routes_exclude :: "string list"

definition defaultConfig :: Force10Config where
  "defaultConfig = \<lparr>enabled = True, cache_ttl = 5 * 60 * 1000, cache_maxEntries = 50,
     loading_suppressProgress = True, debug = False, routes_exclude = []\<rparr>"

record RouteParameter =
  name :: string
  required :: bool

record ManifestRoute =
  pattern :: string
  route_component :: string
  middleware :: "string list"
  parameters :: "RouteParameter list"

record MatchResult =
  route :: ManifestRoute
  params :: "(string \<times> string) list"
  match_url :: string

text \<open>
  The built-ins \<^verbatim>\<open>decodeURI\<close>, \<^verbatim>\<open>decodeURIComponent\<close> and \<^verbatim>\<open>new URL\<close> belong to the
  platform and are parameters of the model; \<open>None\<close> is the exception they throw
  (\<^verbatim>\<open>URIError\<close>, \<^verbatim>\<open>TypeError\<close>). A parsed URL is its origin and its pathname.
\<close>

record URL =
  origin :: string
  pathname :: string

record platform =
  decodeURI :: "string \<Rightarrow> string option"
  decodeURIComponent :: "string \<Rightarrow> string option"
  URL_new :: "string \<Rightarrow> URL option"

section \<open>The route matcher (\<^verbatim>\<open>matcher.ts\<close>)\<close>

record CompiledRoute =
  compiled_route :: ManifestRoute
  regex :: "rx list"
  paramNames :: "string list"
  specificity :: nat

text \<open>\<^verbatim>\<open>pattern.split('/').filter(Boolean)\<close>: the non-empty segments.\<close>

definition segments_of :: "string \<Rightarrow> string list" where
  "segments_of pat = filter (\<lambda>seg. seg \<noteq> []) (split CHR ''/'' pat)"

definition segment_score :: "string \<Rightarrow> nat" where
  "segment_score seg =
     (if seg = ''*'' \<or> seg = ''**'' then 1
      else if startsWith seg '':'' then 2
      else 3)"

definition calcSpecificity :: "string \<Rightarrow> nat" where
  "calcSpecificity pat = fold (\<lambda>seg score. score + segment_score seg) (segments_of pat) 0"

text \<open>
  \<^verbatim>\<open>compilePattern\<close>: one pass over the segments that appends to \<^verbatim>\<open>regexStr\<close> and pushes the
  parameter names.
\<close>

definition compile_segment :: "string \<Rightarrow> string \<times> string list \<Rightarrow> string \<times> string list" where
  "compile_segment seg acc =
     (case acc of (regexStr, names) \<Rightarrow>
        if seg = ''*'' \<or> seg = ''**'' then (regexStr @ ''(?:/.*)?'', names)
        else if startsWith seg '':'' then
          (let isOptional = endsWith seg ''?'';
               nm = (if isOptional then slice1_m1 seg else slice1 seg)
           in if isOptional then (regexStr @ ''(?:/([^/]+))?'', names @ [nm])
              else (regexStr @ ''/([^/]+)'', names @ [nm]))
        else (regexStr @ ''/'' @ escapeRegex seg, names))"

definition compilePatternSource :: "string \<Rightarrow> string \<times> string list" where
  "compilePatternSource pat =
     (let segments = segments_of pat;
          (regexStr, names) = fold compile_segment segments ([], []);
          regexStr' = (if length segments = 0 then [] else regexStr)
      in (''^'' @ regexStr' @ ''/?$'', names))"

definition compilePattern :: "string \<Rightarrow> regex_error + rx list \<times> string list" where
  "compilePattern pat =
     (case compilePatternSource pat of (src, names) \<Rightarrow>
        (case RegExp_new src of Inl e \<Rightarrow> Inl e | Inr r \<Rightarrow> Inr (r, names)))"

text \<open>
  \<^verbatim>\<open>normalizePath\<close>: cut at the first \<^verbatim>\<open>#\<close>, then at the first \<^verbatim>\<open>?\<close>, then \<^verbatim>\<open>decodeURI\<close>,
  keeping the undecoded path when that throws.
\<close>

definition normalizePath :: "platform \<Rightarrow> string \<Rightarrow> string" where
  "normalizePath pf u =
     (let path = split_first CHR ''#'' u;
          path = split_first CHR ''?'' path
      in case decodeURI pf path of Some decoded \<Rightarrow> decoded | None \<Rightarrow> path)"

text \<open>
  \<^verbatim>\<open>getCompiledPattern\<close> memoises \<^verbatim>\<open>compilePattern\<close> per pattern text, which does not change
  its result. \<^verbatim>\<open>Array.prototype.map\<close> stops at the first exception.
\<close>

fun collect :: "('e + 'a) list \<Rightarrow> 'e + 'a list" where
  "collect [] = Inr []"
| "collect (Inl e # xs) = Inl e"
| "collect (Inr x # xs) = (case collect xs of Inl e \<Rightarrow> Inl e | Inr ys \<Rightarrow> Inr (x # ys))"

definition compileRoute :: "ManifestRoute \<Rightarrow> regex_error + CompiledRoute" where
  "compileRoute r =
     (case compilePattern (pattern r) of
        Inl e \<Rightarrow> Inl e
      | Inr (rx, names) \<Rightarrow>
          Inr \<lparr>compiled_route = r, regex = rx, paramNames = names,
               specificity = calcSpecificity (pattern r)\<rparr>)"

text \<open>
  \<^verbatim>\<open>.sort((a, b) => b.specificity - a.specificity)\<close>: a stable sort, highest specificity
  first.
\<close>

definition sort_by_specificity :: "CompiledRoute list \<Rightarrow> CompiledRoute list" where
  "sort_by_specificity cs = sort_key (\<lambda>c. - int (specificity c)) cs"

definition compiledRoutes :: "ManifestRoute list \<Rightarrow> regex_error + CompiledRoute list" where
  "compiledRoutes rs =
     (case collect (map compileRoute rs) of
        Inl e \<Rightarrow> Inl e
      | Inr cs \<Rightarrow> Inr (sort_by_specificity cs))"

text \<open>
  The parameters of a match: capture \<open>i + 1\<close> belongs to name \<open>i\<close>; a capture that took
  part is decoded with \<^verbatim>\<open>decodeURIComponent\<close>, and kept raw when that throws. \<^verbatim>\<open>params\<close> is a
  plain object: \<^verbatim>\<open>params[name] = value\<close> with the name \<^verbatim>\<open>__proto__\<close> calls the setter of
  \<^verbatim>\<open>Object.prototype\<close>, which ignores a string and adds no property.
\<close>

definition extract_params :: "platform \<Rightarrow> string list \<Rightarrow> (nat \<times> string) list
    \<Rightarrow> (string \<times> string) list" where
  "extract_params pf names caps =
     fold (\<lambda>i ps. case map_of caps (i + 1) of
                     None \<Rightarrow> ps
                   | Some v \<Rightarrow>
                       if names ! i = ''__proto__'' then ps
                       else AList.update (names ! i)
                              (case decodeURIComponent pf v of Some d \<Rightarrow> d | None \<Rightarrow> v) ps)
          [0 ..< length names] []"

fun match_loop :: "platform \<Rightarrow> CompiledRoute list \<Rightarrow> string \<Rightarrow> string \<Rightarrow> MatchResult option" where
  "match_loop pf [] path u = None"
| "match_loop pf (c # cs) path u =
     (case RegExp_exec (regex c) path of
        None \<Rightarrow> match_loop pf cs path u
      | Some m \<Rightarrow> Some \<lparr>route = compiled_route c,
                         params = extract_params pf (paramNames c) m,
                         match_url = u\<rparr>)"

record Force10Matcher =
  match :: "string \<Rightarrow> MatchResult option"
  isExcluded :: "string \<Rightarrow> bool"

definition createMatcher :: "platform \<Rightarrow> ManifestRoute list \<Rightarrow> Force10Config
    \<Rightarrow> regex_error + Force10Matcher" where
  "createMatcher pf manifest_routes config =
     (case compiledRoutes manifest_routes of
        Inl e \<Rightarrow> Inl e
      | Inr cs \<Rightarrow>
          (case collect (map excludePatternToRegex (routes_exclude config)) of
             Inl e \<Rightarrow> Inl e
           | Inr excludeRegexes \<Rightarrow>
               Inr \<lparr>match = (\<lambda>u. match_loop pf cs (normalizePath pf u) u),
                    isExcluded = (\<lambda>u. list_ex (\<lambda>r. RegExp_test r (normalizePath pf u))
                                         excludeRegexes)\<rparr>))"

text \<open>
  A stand-in for the platform on examples: it agrees with the built-ins on strings without
  \<^verbatim>\<open>%\<close> (which need no decoding) and on the absolute URLs of the examples. It is used in
  closed examples only.
\<close>

definition plain_decode :: "string \<Rightarrow> string option" where
  "plain_decode s = (if CHR ''%'' \<in> set s then None else Some s)"

definition example_URL_new :: "string \<Rightarrow> URL option" where
  "example_URL_new s =
     (if s = ''http://localhost/users'' then Some \<lparr>origin = ''http://localhost'', pathname = ''/users''\<rparr>
      else if s = ''https://external.com/page''
        then Some \<lparr>origin = ''https://external.com'', pathname = ''/page''\<rparr>
      else None)"

definition example_platform :: platform where
  "example_platform = \<lparr>decodeURI = plain_decode, decodeURIComponent = plain_decode,
     URL_new = example_URL_new\<rparr>"

section \<open>The host: the Inertia router and the window\<close>

text \<open>
  A page as the server sends it and as \<^verbatim>\<open>window.history.state.page\<close> holds it.
\<close>

record Page =
  page_component :: string
  page_props :: props
  page_url :: string

text \<open>The first argument of \<^verbatim>\<open>router.visit\<close>: a string or a \<^verbatim>\<open>URL\<close> object.\<close>

datatype href = HrefString string | HrefURL URL

text \<open>
  The callbacks of a visit. A callback of the application is opaque and known by a number;
  the others are the four closures that \<^verbatim>\<open>patchedVisit\<close> builds, which capture \<^verbatim>\<open>match\<close>
  and the \<^verbatim>\<open>onSuccess\<close> or \<^verbatim>\<open>onError\<close> of the options of the caller.
\<close>

datatype success_callback =
    AppOnSuccess nat
  | PassthroughOnSuccess MatchResult "success_callback option"
  | BackgroundOnSuccess MatchResult "success_callback option"

datatype error_callback =
    AppOnError nat
  | PassthroughOnError "error_callback option"
  | BackgroundOnError "error_callback option"

text \<open>
  The options of a visit, a \<^verbatim>\<open>Record<string, any>\<close>: the keys the engine reads or writes,
  and the others kept as they are.
\<close>

record VisitOptions =
  method_opt :: "string option"
  preserveScroll :: "bool option"
  preserveState :: "bool option"
  replace :: "bool option"
  async :: "bool option"
  showProgress :: "bool option"
  onSuccess :: "success_callback option"
  onError :: "error_callback option"
  other_options :: "(string \<times> string) list"

definition no_options :: VisitOptions where
  "no_options = \<lparr>method_opt = None, preserveScroll = None, preserveState = None, replace = None,
     async = None, showProgress = None, onSuccess = None, onError = None, other_options = []\<rparr>"

text \<open>\<^verbatim>\<open>{ ...options }\<close> for options that may be \<^verbatim>\<open>undefined\<close>.\<close>

definition spread_options :: "VisitOptions option \<Rightarrow> VisitOptions" where
  "spread_options options = (case options of None \<Rightarrow> no_options | Some opts \<Rightarrow> opts)"

text \<open>
  The argument of \<^verbatim>\<open>router.push\<close> and \<^verbatim>\<open>router.replace\<close>; its props are an object or a
  function of the props of the current page.
\<close>

datatype props_arg = PropsObject props | PropsFunction "props \<Rightarrow> props"

record PageSpec =
  spec_component :: string
  spec_url :: string
  spec_props :: props_arg
  spec_preserveScroll :: "bool option"
  spec_preserveState :: "bool option"

datatype render = Push PageSpec | Replace PageSpec

text \<open>\<^verbatim>\<open>window\<close>: \<^verbatim>\<open>window.history.state?.page\<close> and \<^verbatim>\<open>window.location.origin\<close>.\<close>

record window =
  history_state_page :: "Page option"
  location_origin :: string

section \<open>The state of the engine\<close>

text \<open>
  Each optimistic navigation creates the closure variables \<^verbatim>\<open>backgroundFired\<close>,
  \<^verbatim>\<open>removeListener\<close>, \<^verbatim>\<open>fallbackTimer\<close> and \<^verbatim>\<open>backgroundOptions\<close>: a \<open>gate\<close>. \<open>listening\<close>
  says that the listener given to \<^verbatim>\<open>router.on('navigate', ...)\<close> is still registered,
  \<open>timer_armed\<close> that the timer of \<^verbatim>\<open>setTimeout(fireBackground, 100)\<close> is still pending.
  The gates are numbered in the order of their creation.
\<close>

record gate =
  backgroundFired :: bool
  listening :: bool
  timer_armed :: bool
  gate_href :: href
  backgroundOptions :: VisitOptions

text \<open>
  A call of the original \<^verbatim>\<open>router.visit\<close>, with the code that made it: \<^verbatim>\<open>patchedVisit\<close>
  passing a navigation through, \<^verbatim>\<open>fireBackground\<close> of a gate, or the application while the
  patch is removed.
\<close>

datatype issuer = Passthrough | Deferred nat | Unpatched

record visit_call =
  call_href :: href
  call_options :: "VisitOptions option"
  call_issuer :: issuer

datatype callback_arg = ArgPage Page | ArgErrors string

text \<open>
  The mutable state: the variables of \<^verbatim>\<open>applyPatch\<close> (\<open>gates\<close>,
  \<open>cancelPendingBackground\<close>, which is \<^verbatim>\<open>null\<close> or the cancel closure of a gate), of
  \<^verbatim>\<open>createNavigator\<close> (\<open>loading\<close>, the variable \<^verbatim>\<open>_isLoading\<close>), of \<^verbatim>\<open>createCache\<close>
  (\<open>cache_store\<close>) and of \<^verbatim>\<open>createPreflight\<close> (\<open>preflight_data\<close>), and what the host has
  been asked to do: the calls of the original \<^verbatim>\<open>router.visit\<close>, the calls of
  \<^verbatim>\<open>router.push\<close> and \<^verbatim>\<open>router.replace\<close>, the callbacks of the application that were run.
\<close>

record engine =
  gates :: "gate list"
  cancelPendingBackground :: "nat option"
  loading :: bool
  cache_store :: store
  preflight_data :: preflight_data
  visits :: "visit_call list"
  renders :: "render list"
  app_calls :: "(nat \<times> callback_arg) list"
  patched :: bool

text \<open>
  What \<^verbatim>\<open>initForce10\<close> wires together and never changes: the configuration, the matcher,
  whether a preflight evaluator is given to the navigator and to the patch, and the
  platform.
\<close>

record wiring =
  config :: Force10Config
  matcher :: Force10Matcher
  preflight_attached :: bool
  host :: platform

text \<open>
  A call returns, throws (with the state at that point) or does not return.
\<close>

datatype 'a outcome = Returned 'a | Threw regex_error 'a | Hung

section \<open>The navigator (\<^verbatim>\<open>navigator.ts\<close>)\<close>

definition isLoading :: "engine \<Rightarrow> bool" where
  "isLoading s = loading s"

definition setLoaded :: "engine \<Rightarrow> engine" where
  "setLoaded s = s\<lparr>loading := False\<rparr>"

text \<open>
  \<^verbatim>\<open>optimisticNavigate\<close>: the props are those of the cached entry, fresh or stale, or the
  function \<^verbatim>\<open>(currentProps) => currentProps\<close>; \<^verbatim>\<open>_isLoading\<close> is set before the router is
  called.
\<close>

definition optimisticNavigate :: "wiring \<Rightarrow> int \<Rightarrow> MatchResult \<Rightarrow> VisitOptions option
    \<Rightarrow> engine \<Rightarrow> engine" where
  "optimisticNavigate w now m options s =
     (let cached = getOrStale (cache_ttl (config w)) now (cache_store s) (match_url m);
          page = \<lparr>spec_component = route_component (route m),
                  spec_url = match_url m,
                  spec_props = (case cached of
                                  Some (entry, isStale) \<Rightarrow> PropsObject (props entry)
                                | None \<Rightarrow> PropsFunction (\<lambda>currentProps. currentProps)),
                  spec_preserveScroll = (case options of None \<Rightarrow> None | Some opts \<Rightarrow> preserveScroll opts),
                  spec_preserveState = (case options of None \<Rightarrow> None | Some opts \<Rightarrow> preserveState opts)\<rparr>;
          s1 = s\<lparr>loading := True\<rparr>
      in if (case options of None \<Rightarrow> False | Some opts \<Rightarrow> replace opts = Some True)
         then s1\<lparr>renders := renders s1 @ [Replace page]\<rparr>
         else s1\<lparr>renders := renders s1 @ [Push page]\<rparr>)"

text \<open>
  \<^verbatim>\<open>shouldOptimisticallyNavigate\<close>: the engine is enabled, the preflight evaluator (when
  given) does not say \<open>false\<close>, and a route with the middleware \<^verbatim>\<open>auth\<close> needs a user in the
  props of the current page.
\<close>

definition shouldOptimisticallyNavigate :: "wiring \<Rightarrow> window option \<Rightarrow> int \<Rightarrow> engine
    \<Rightarrow> MatchResult \<Rightarrow> bool" where
  "shouldOptimisticallyNavigate w win now s m =
     (if \<not> enabled (config w) then False
      else if preflight_attached w
              \<and> check (preflight_data s) now (middleware (route m)) = Some False then False
      else if ''auth'' \<in> set (middleware (route m)) then
        (let currentPage = (case win of None \<Rightarrow> None | Some wd \<Rightarrow> history_state_page wd);
             user = (case currentPage of None \<Rightarrow> None | Some pg \<Rightarrow> props_auth_user (page_props pg))
         in user \<noteq> None)
      else True)"

section \<open>The patch of \<^verbatim>\<open>router.visit\<close> (\<^verbatim>\<open>patch.ts\<close>)\<close>

definition originalVisit :: "issuer \<Rightarrow> href \<Rightarrow> VisitOptions option \<Rightarrow> engine \<Rightarrow> engine" where
  "originalVisit who h options s =
     s\<lparr>visits := visits s @ [\<lparr>call_href = h, call_options = options, call_issuer = who\<rparr>]\<rparr>"

text \<open>
  \<^verbatim>\<open>fireBackground\<close> of gate \<open>n\<close>: a latch on \<^verbatim>\<open>backgroundFired\<close>; the first call removes the
  listener, clears the timer, resets \<^verbatim>\<open>cancelPendingBackground\<close> and calls the original
  \<^verbatim>\<open>router.visit\<close> with the background options.
\<close>

definition fireBackground :: "nat \<Rightarrow> engine \<Rightarrow> engine" where
  "fireBackground n s =
     (if n < length (gates s) then
        (let g = gates s ! n in
         if backgroundFired g then s
         else originalVisit (Deferred n) (gate_href g) (Some (backgroundOptions g))
                (s\<lparr>gates := (gates s)[n := g\<lparr>backgroundFired := True, listening := False,
                                             timer_armed := False\<rparr>],
                   cancelPendingBackground := None\<rparr>))
      else s)"

text \<open>
  The closure that gate \<open>n\<close> assigns to \<^verbatim>\<open>cancelPendingBackground\<close>: if the background has
  not fired, it is marked fired, the listener and the timer are removed and the loading
  state is reset; the variable is set to \<^verbatim>\<open>null\<close> in any case.
\<close>

definition cancel_closure :: "nat \<Rightarrow> engine \<Rightarrow> engine" where
  "cancel_closure n s =
     (if n < length (gates s) then
        (let g = gates s ! n;
             s1 = (if \<not> backgroundFired g
                   then setLoaded (s\<lparr>gates := (gates s)[n := g\<lparr>backgroundFired := True,
                                          listening := False, timer_armed := False\<rparr>]\<rparr>)
                   else s)
         in s1\<lparr>cancelPendingBackground := None\<rparr>)
      else s\<lparr>cancelPendingBackground := None\<rparr>)"

text \<open>\<^verbatim>\<open>if (cancelPendingBackground) cancelPendingBackground();\<close>\<close>

definition cancel_pending :: "engine \<Rightarrow> engine" where
  "cancel_pending s =
     (case cancelPendingBackground s of None \<Rightarrow> s | Some n \<Rightarrow> cancel_closure n s)"

text \<open>
  \<^verbatim>\<open>patchedVisit\<close> after the cancellation is a chain of tests, each of which returns with a
  call of the original \<^verbatim>\<open>router.visit\<close>, followed by the optimistic path. \<open>decide\<close> is the
  chain, in the order of the source: \<open>Skip\<close> stands for
  \<^verbatim>\<open>return originalVisit.call(router, href, options)\<close>, \<open>SeedCache\<close> for the passthrough
  with wrapped callbacks (no cached entry and no opinion of the preflight evaluator), and
  \<open>Optimistic\<close> for reaching the end of the chain.
\<close>

datatype decision = Skip | SeedCache MatchResult | Optimistic MatchResult

text \<open>
  The block for absolute URLs: \<open>None\<close> when the URL does not parse or has another origin,
  otherwise the path to match (the pathname of an absolute URL of this origin).
\<close>

definition same_origin_path :: "wiring \<Rightarrow> window option \<Rightarrow> string \<Rightarrow> string option" where
  "same_origin_path w win urlPath =
     (if startsWith urlPath ''http://'' \<or> startsWith urlPath ''https://''
      then (case URL_new (host w) urlPath of
              None \<Rightarrow> None
            | Some parsedUrl \<Rightarrow>
                if origin parsedUrl \<noteq> (case win of None \<Rightarrow> [] | Some wd \<Rightarrow> location_origin wd)
                then None
                else Some (pathname parsedUrl))
      else Some urlPath)"

text \<open>\<^verbatim>\<open>options?.method && options.method !== 'get'\<close>\<close>

definition non_get :: "VisitOptions option \<Rightarrow> bool" where
  "non_get options =
     (case options of
        None \<Rightarrow> False
      | Some opts \<Rightarrow> (case method_opt opts of None \<Rightarrow> False | Some meth \<Rightarrow> meth \<noteq> [] \<and> meth \<noteq> ''get''))"

definition decide :: "wiring \<Rightarrow> window option \<Rightarrow> int \<Rightarrow> href \<Rightarrow> VisitOptions option \<Rightarrow> engine
    \<Rightarrow> decision" where
  "decide w win now h options s =
     (let urlPath = (case h of HrefURL u \<Rightarrow> pathname u | HrefString str \<Rightarrow> str);
          currentPageUrl = (case win of
                              None \<Rightarrow> None
                            | Some wd \<Rightarrow> map_option page_url (history_state_page wd))
      in if startsWith urlPath ''#'' then Skip
         else if Some urlPath = currentPageUrl then Skip
         else (case same_origin_path w win urlPath of
                 None \<Rightarrow> Skip
               | Some urlPath' \<Rightarrow>
                   if non_get options then Skip
                   else (case match (matcher w) urlPath' of
                           None \<Rightarrow> Skip
                         | Some m \<Rightarrow>
                             if \<not> shouldOptimisticallyNavigate w win now s m then Skip
                             else if getOrStale (cache_ttl (config w)) now (cache_store s)
                                       (match_url m) = None
                                     \<and> preflight_attached w
                                     \<and> check (preflight_data s) now (middleware (route m)) = None
                             then SeedCache m
                             else Optimistic m)))"

text \<open>\<^verbatim>\<open>passthroughOptions\<close> and \<^verbatim>\<open>backgroundOptions\<close>.\<close>

definition passthroughOptions :: "MatchResult \<Rightarrow> VisitOptions option \<Rightarrow> VisitOptions" where
  "passthroughOptions m options =
     (spread_options options)
       \<lparr>onSuccess := Some (PassthroughOnSuccess m
           (case options of None \<Rightarrow> None | Some opts \<Rightarrow> onSuccess opts)),
        onError := Some (PassthroughOnError
           (case options of None \<Rightarrow> None | Some opts \<Rightarrow> onError opts))\<rparr>"

definition backgroundOptions_of :: "MatchResult \<Rightarrow> VisitOptions option \<Rightarrow> VisitOptions" where
  "backgroundOptions_of m options =
     (spread_options options)
       \<lparr>async := Some True, replace := Some True, showProgress := Some False,
        onSuccess := Some (BackgroundOnSuccess m
           (case options of None \<Rightarrow> None | Some opts \<Rightarrow> onSuccess opts)),
        onError := Some (BackgroundOnError
           (case options of None \<Rightarrow> None | Some opts \<Rightarrow> onError opts))\<rparr>"

text \<open>
  The gate of a new optimistic navigation: the listener is registered, the timer is set
  and \<^verbatim>\<open>cancelPendingBackground\<close> becomes the cancel closure of this gate.
\<close>

definition arm_gate :: "href \<Rightarrow> VisitOptions \<Rightarrow> engine \<Rightarrow> engine" where
  "arm_gate h bg s =
     s\<lparr>gates := gates s @ [\<lparr>backgroundFired = False, listening = True, timer_armed = True,
                              gate_href = h, backgroundOptions = bg\<rparr>],
       cancelPendingBackground := Some (length (gates s))\<rparr>"

definition visit_after_cancel :: "wiring \<Rightarrow> window option \<Rightarrow> int \<Rightarrow> href \<Rightarrow> VisitOptions option
    \<Rightarrow> engine \<Rightarrow> engine" where
  "visit_after_cancel w win now h options s =
     (case decide w win now h options s of
        Skip \<Rightarrow> originalVisit Passthrough h options s
      | SeedCache m \<Rightarrow> originalVisit Passthrough h (Some (passthroughOptions m options)) s
      | Optimistic m \<Rightarrow>
          optimisticNavigate w now m options (arm_gate h (backgroundOptions_of m options) s))"

definition patchedVisit :: "wiring \<Rightarrow> window option \<Rightarrow> int \<Rightarrow> href \<Rightarrow> VisitOptions option
    \<Rightarrow> engine \<Rightarrow> engine" where
  "patchedVisit w win now h options s = visit_after_cancel w win now h options (cancel_pending s)"

text \<open>\<^verbatim>\<open>patch.remove()\<close> and \<^verbatim>\<open>patch.apply()\<close>.\<close>

definition patch_remove :: "engine \<Rightarrow> engine" where
  "patch_remove s = cancel_pending (s\<lparr>patched := False\<rparr>)"

definition patch_apply :: "engine \<Rightarrow> engine" where
  "patch_apply s = s\<lparr>patched := True\<rparr>"

text \<open>The state after \<^verbatim>\<open>applyPatch\<close>, with the preflight data of the initial page.\<close>

definition applyPatch :: "preflight_data \<Rightarrow> engine" where
  "applyPatch initial_preflight =
     \<lparr>gates = [], cancelPendingBackground = None, loading = False, cache_store = [],
      preflight_data = initial_preflight, visits = [], renders = [], app_calls = [],
      patched = True\<rparr>"

section \<open>The callbacks of the patch\<close>

text \<open>
  The loop \<^verbatim>\<open>for (const pattern of serverDirectives.invalidate)\<close>: a pattern that does not
  compile throws, after the patterns before it were applied.
\<close>

fun invalidate_all :: "string list \<Rightarrow> store \<Rightarrow> (regex_error \<times> store) + store" where
  "invalidate_all [] st = Inr st"
| "invalidate_all (pat # pats) st =
     (case invalidateByPattern pat st of
        Inl e \<Rightarrow> Inl (e, st)
      | Inr st' \<Rightarrow> invalidate_all pats st')"

text \<open>The entry that both \<^verbatim>\<open>onSuccess\<close> wrappers give to \<^verbatim>\<open>cache.set\<close>.\<close>

definition entry_of :: "Page \<Rightarrow> int \<Rightarrow> CachedPage" where
  "entry_of page now = \<lparr>props = page_props page, timestamp = now, url = page_url page,
     component = page_component page\<rparr>"

text \<open>
  Running an \<^verbatim>\<open>onSuccess\<close> callback with the page of the response. The wrapper of the
  passthrough feeds the preflight evaluator, seeds the cache when the component is the
  predicted one, and forwards. The wrapper of the background request feeds the preflight
  evaluator; on a mismatch of the component it removes the entry of \<^verbatim>\<open>match.url\<close>, resets
  the loading state and forwards; otherwise it sets the entry of \<^verbatim>\<open>match.url\<close>, applies the
  invalidation patterns of the server, resets the loading state and forwards.
\<close>

fun run_onSuccess :: "wiring \<Rightarrow> int \<Rightarrow> success_callback \<Rightarrow> Page \<Rightarrow> engine \<Rightarrow> engine outcome" where
  "run_onSuccess w now (AppOnSuccess k) page s =
     Returned (s\<lparr>app_calls := app_calls s @ [(k, ArgPage page)]\<rparr>)"
| "run_onSuccess w now (PassthroughOnSuccess m inner) page s =
     (let s1 = (case props_preflight (page_props page) of
                  None \<Rightarrow> s
                | Some d \<Rightarrow> s\<lparr>preflight_data := preflight_update d (preflight_data s)\<rparr>)
      in case (if page_component page = route_component (route m)
               then map_option (\<lambda>st. s1\<lparr>cache_store := st\<rparr>)
                      (cache_set (cache_maxEntries (config w)) (match_url m) (entry_of page now)
                         (cache_store s1))
               else Some s1) of
           None \<Rightarrow> Hung
         | Some s2 \<Rightarrow> (case inner of
                         None \<Rightarrow> Returned s2
                       | Some cb \<Rightarrow> run_onSuccess w now cb page s2))"
| "run_onSuccess w now (BackgroundOnSuccess m inner) page s =
     (let s1 = (case props_preflight (page_props page) of
                  None \<Rightarrow> s
                | Some d \<Rightarrow> if preflight_attached w
                            then s\<lparr>preflight_data := preflight_update d (preflight_data s)\<rparr>
                            else s)
      in if page_component page \<noteq> route_component (route m) then
           (let s2 = setLoaded (s1\<lparr>cache_store := cache_remove (match_url m) (cache_store s1)\<rparr>)
            in case inner of None \<Rightarrow> Returned s2 | Some cb \<Rightarrow> run_onSuccess w now cb page s2)
         else
           (case cache_set (cache_maxEntries (config w)) (match_url m) (entry_of page now)
                   (cache_store s1) of
              None \<Rightarrow> Hung
            | Some st \<Rightarrow>
                (case invalidate_all (case props_invalidate (page_props page) of
                                        None \<Rightarrow> [] | Some pats \<Rightarrow> pats) st of
                   Inl (e, st') \<Rightarrow> Threw e (s1\<lparr>cache_store := st'\<rparr>)
                 | Inr st' \<Rightarrow>
                     (let s2 = setLoaded (s1\<lparr>cache_store := st'\<rparr>)
                      in case inner of
                           None \<Rightarrow> Returned s2
                         | Some cb \<Rightarrow> run_onSuccess w now cb page s2))))"

fun run_onError :: "error_callback \<Rightarrow> string \<Rightarrow> engine \<Rightarrow> engine" where
  "run_onError (AppOnError k) errors s = s\<lparr>app_calls := app_calls s @ [(k, ArgErrors errors)]\<rparr>"
| "run_onError (PassthroughOnError inner) errors s =
     (case inner of None \<Rightarrow> s | Some cb \<Rightarrow> run_onError cb errors s)"
| "run_onError (BackgroundOnError inner) errors s =
     (case inner of None \<Rightarrow> setLoaded s | Some cb \<Rightarrow> run_onError cb errors (setLoaded s))"

section \<open>What the host and the application do\<close>

text \<open>
  The engine runs on one thread; what happens to it is a sequence of events: the
  application calls \<^verbatim>\<open>router.visit\<close> (with the window and the time of the call), the router
  emits \<^verbatim>\<open>navigate\<close>, the timer of a gate runs, the router runs the \<^verbatim>\<open>onSuccess\<close> or
  \<^verbatim>\<open>onError\<close> callback of a visit, the patch is removed or applied again. The router calls
  no callback and emits no event before the call that it is handling has returned (it
  resolves a page asynchronously).
\<close>

datatype event =
    Visit "window option" int href "VisitOptions option"
  | NavigateEvent
  | TimerFires nat
  | Success success_callback Page int
  | Failure error_callback string
  | RemovePatch
  | ApplyPatch

text \<open>The router calls the listeners of \<^verbatim>\<open>navigate\<close> that are registered.\<close>

definition on_navigate :: "engine \<Rightarrow> engine" where
  "on_navigate s =
     fold (\<lambda>n st. if n < length (gates st) \<and> listening (gates st ! n) then fireBackground n st
                   else st)
          [0 ..< length (gates s)] s"

text \<open>A timer runs its callback if it was not cleared.\<close>

definition on_timer :: "nat \<Rightarrow> engine \<Rightarrow> engine" where
  "on_timer n s =
     (if n < length (gates s) \<and> timer_armed (gates s ! n) then fireBackground n s else s)"

definition step :: "wiring \<Rightarrow> event \<Rightarrow> engine \<Rightarrow> engine outcome" where
  "step w e s =
     (case e of
        Visit win now h options \<Rightarrow>
          Returned (if patched s then patchedVisit w win now h options s
                    else originalVisit Unpatched h options s)
      | NavigateEvent \<Rightarrow> Returned (on_navigate s)
      | TimerFires n \<Rightarrow> Returned (on_timer n s)
      | Success cb page now \<Rightarrow> run_onSuccess w now cb page s
      | Failure cb errors \<Rightarrow> Returned (run_onError cb errors s)
      | RemovePatch \<Rightarrow> Returned (patch_remove s)
      | ApplyPatch \<Rightarrow> Returned (patch_apply s))"

text \<open>
  The state after a sequence of events; after an exception in a callback the engine goes
  on from the state at the throw; \<open>None\<close> when a call did not return.
\<close>

fun run :: "wiring \<Rightarrow> event list \<Rightarrow> engine \<Rightarrow> engine option" where
  "run w [] s = Some s"
| "run w (e # es) s =
     (case step w e s of
        Returned s' \<Rightarrow> run w es s'
      | Threw err s' \<Rightarrow> run w es s'
      | Hung \<Rightarrow> None)"

section \<open>Auxiliary predicates for the statements\<close>





text \<open>
  A call of the cache interface that changes the store, and the store after a sequence of
  calls (\<open>None\<close> when a call does not return; a call that throws leaves the store as it
  was). \<open>cache_inv\<close> is the invariant of the store: one entry per key, at most
  \<open>maxEntries\<close> entries.
\<close>

datatype cache_op =
    OpSet string CachedPage
  | OpRemove string
  | OpClear
  | OpInvalidate string
  | OpUpdateProps int string props

fun cache_after :: "int \<Rightarrow> cache_op \<Rightarrow> store \<Rightarrow> store option" where
  "cache_after m (OpSet u p) s = cache_set m u p s"
| "cache_after m (OpRemove u) s = Some (cache_remove u s)"
| "cache_after m OpClear s = Some (cache_clear s)"
| "cache_after m (OpInvalidate pat) s =
     Some (case invalidateByPattern pat s of Inl e \<Rightarrow> s | Inr s' \<Rightarrow> s')"
| "cache_after m (OpUpdateProps now u p) s = Some (updateProps now u p s)"

fun cache_run :: "int \<Rightarrow> cache_op list \<Rightarrow> store \<Rightarrow> store option" where
  "cache_run m [] s = Some s"
| "cache_run m (x # xs) s = (case cache_after m x s of None \<Rightarrow> None | Some s' \<Rightarrow> cache_run m xs s')"

definition cache_inv :: "int \<Rightarrow> store \<Rightarrow> bool" where
  "cache_inv m s = (distinct (map fst s) \<and> int (length s) \<le> m)"

text \<open>A page as the tests of the cache build it.\<close>

definition example_page :: "string \<Rightarrow> int \<Rightarrow> CachedPage" where
  "example_page u t = \<lparr>props = [(''title'', Data ''Test'')], timestamp = t, url = u,
     component = ''TestComponent''\<rparr>"



section \<open>Auxiliary definitions for the compilers\<close>

text \<open>
  A glob pattern in the words of the specification: \<^verbatim>\<open>*\<close> stands for any run of
  characters and \<^verbatim>\<open>?\<close> for any one character, a character being what \<^verbatim>\<open>.\<close> matches
  (anything but a line terminator); every other character stands for itself.
\<close>

fun glob_accepts :: "string \<Rightarrow> string \<Rightarrow> bool" where
  "glob_accepts [] s = (s = [])"
| "glob_accepts (g # gs) s =
     (if g = CHR ''*'' then list_ex (\<lambda>j. glob_accepts gs (drop j s)) [0 ..< Suc (length (takeWhile (cls_test Dot) s))]
      else if g = CHR ''?'' then (case s of [] \<Rightarrow> False | c # cs \<Rightarrow> cls_test Dot c \<and> glob_accepts gs cs)
      else (case s of [] \<Rightarrow> False | c # cs \<Rightarrow> c = g \<and> glob_accepts gs cs))"

text \<open>
  The tokens and the term that one character of an exclude pattern contributes, and the text
  it contributes (\<open>exclude_piece\<close>, the body of the loop of \<^verbatim>\<open>excludePatternToRegex\<close>).
\<close>

definition glob_term :: "char \<Rightarrow> rx" where
  "glob_term g = (if g = CHR ''*'' then Many Dot 0 True else if g = CHR ''?'' then One Dot else One (Lit g))"

definition glob_toks :: "char \<Rightarrow> tok list" where
  "glob_toks g = (if g = CHR ''*'' then [TAtom Dot, TQuant CHR ''*''] else if g = CHR ''?'' then [TAtom Dot] else [TAtom (Lit g)])"

definition exclude_piece :: "char \<Rightarrow> string" where
  "exclude_piece ch = (if ch = CHR ''*'' then ''.*'' else if ch = CHR ''?'' then ''.'' else escapeRegex [ch])"


text \<open>
  What one segment of a route pattern contributes in \<^verbatim>\<open>compilePattern\<close>: its text, its
  parameter names, its capturing groups, its tokens and its terms (\<open>n\<close> capturing groups
  precede it). \<open>compiled_of r\<close> is the compiled route that \<open>compileRoute r\<close> returns.
\<close>

definition segment_source :: "string \<Rightarrow> string" where
  "segment_source seg =
     (if seg = ''*'' \<or> seg = ''**'' then ''(?:/.*)?''
      else if startsWith seg '':'' then (if endsWith seg ''?'' then ''(?:/([^/]+))?'' else ''/([^/]+)'')
      else ''/'' @ escapeRegex seg)"

definition segment_names :: "string \<Rightarrow> string list" where
  "segment_names seg =
     (if seg = ''*'' \<or> seg = ''**'' then []
      else if startsWith seg '':'' then [if endsWith seg ''?'' then slice1_m1 seg else slice1 seg]
      else [])"

definition segment_groups :: "string \<Rightarrow> nat" where
  "segment_groups seg = (if seg = ''*'' \<or> seg = ''**'' then 0 else if startsWith seg '':'' then 1 else 0)"

definition segment_toks :: "string \<Rightarrow> tok list" where
  "segment_toks seg =
     (if seg = ''*'' \<or> seg = ''**''
        then [TOpen False, TAtom (Lit CHR ''/''), TAtom Dot, TQuant CHR ''*'', TClose, TQuant CHR ''?'']
      else if startsWith seg '':'' then
        (if endsWith seg ''?''
           then [TOpen False, TAtom (Lit CHR ''/''), TOpen True, TAtom NotSlash, TQuant CHR ''+'', TClose,
                 TClose, TQuant CHR ''?'']
         else [TAtom (Lit CHR ''/''), TOpen True, TAtom NotSlash, TQuant CHR ''+'', TClose])
      else TAtom (Lit CHR ''/'') # map (\<lambda>c. TAtom (Lit c)) seg)"

definition segment_terms :: "nat \<Rightarrow> string \<Rightarrow> rx list" where
  "segment_terms n seg =
     (if seg = ''*'' \<or> seg = ''**''
        then [Opt (Group None [One (Lit CHR ''/''), Many Dot 0 True]) True]
      else if startsWith seg '':'' then
        (if endsWith seg ''?''
           then [Opt (Group None [One (Lit CHR ''/''), Group (Some (Suc n)) [Many NotSlash 1 True]]) True]
         else [One (Lit CHR ''/''), Group (Some (Suc n)) [Many NotSlash 1 True]])
      else One (Lit CHR ''/'') # map (\<lambda>c. One (Lit c)) seg)"

fun segments_terms :: "nat \<Rightarrow> string list \<Rightarrow> rx list" where
  "segments_terms n [] = []"
| "segments_terms n (seg # segs) = segment_terms n seg @ segments_terms (n + segment_groups seg) segs"

definition compiled_of :: "ManifestRoute \<Rightarrow> CompiledRoute" where
  "compiled_of r = \<lparr>compiled_route = r,
     regex = Bol # segments_terms 0 (segments_of (pattern r)) @ [Opt (One (Lit CHR ''/'')) True, Eol],
     paramNames = concat (map segment_names (segments_of (pattern r))),
     specificity = calcSpecificity (pattern r)\<rparr>"


text \<open>The routes of the tests of the matcher, and the pattern of the route a matcher returns.\<close>

definition users_show :: ManifestRoute where
  "users_show = \<lparr>pattern = ''/users/:id'', route_component = ''Users/Show'', middleware = [],
     parameters = [\<lparr>name = ''id'', required = True\<rparr>]\<rparr>"

definition users_create :: ManifestRoute where
  "users_create = \<lparr>pattern = ''/users/create'', route_component = ''Users/Create'', middleware = [],
     parameters = []\<rparr>"

definition users_create_tab :: ManifestRoute where
  "users_create_tab = \<lparr>pattern = ''/users/create/:tab?'', route_component = ''Users/CreateTab'',
     middleware = [], parameters = [\<lparr>name = ''tab'', required = False\<rparr>]\<rparr>"

definition matched_pattern :: "regex_error + Force10Matcher \<Rightarrow> string \<Rightarrow> string option" where
  "matched_pattern mm u =
     (case mm of Inl e \<Rightarrow> None | Inr m \<Rightarrow> map_option (\<lambda>res. pattern (route res)) (match m u))"

section \<open>Auxiliary definitions for the engine\<close>

text \<open>
  The calls of the original \<^verbatim>\<open>router.visit\<close> that \<^verbatim>\<open>fireBackground\<close> of gate \<open>n\<close> made. A
  gate is settled when it has fired or was cancelled (its listener and its timer are gone)
  and waiting while its listener and its timer are live. \<open>engine_inv\<close> is the invariant of
  the engine: every gate is settled, except the last one while \<^verbatim>\<open>cancelPendingBackground\<close>
  is its cancel closure; the background request of a gate was issued at most once, and only
  by a gate that has fired; the keys of the cache are distinct.
\<close>

definition deferred_calls :: "nat \<Rightarrow> engine \<Rightarrow> visit_call list" where
  "deferred_calls n s = filter (\<lambda>c. call_issuer c = Deferred n) (visits s)"

definition gate_settled :: "gate \<Rightarrow> bool" where
  "gate_settled g = (backgroundFired g \<and> \<not> listening g \<and> \<not> timer_armed g)"

definition gate_waiting :: "gate \<Rightarrow> bool" where
  "gate_waiting g = (\<not> backgroundFired g \<and> listening g \<and> timer_armed g)"

definition engine_inv :: "engine \<Rightarrow> bool" where
  "engine_inv s =
     ((\<forall>n < length (gates s). gate_settled (gates s ! n)
          \<or> (gate_waiting (gates s ! n) \<and> cancelPendingBackground s = Some n))
      \<and> (\<forall>n. cancelPendingBackground s = Some n
            \<longrightarrow> Suc n = length (gates s) \<and> \<not> backgroundFired (gates s ! n))
      \<and> (\<forall>n. length (deferred_calls n s) \<le> 1
            \<and> (deferred_calls n s \<noteq> [] \<longrightarrow> n < length (gates s) \<and> backgroundFired (gates s ! n)))
      \<and> distinct (map fst (cache_store s)))"

definition all_settled :: "engine \<Rightarrow> bool" where
  "all_settled s = ((\<forall>g \<in> set (gates s). gate_settled g) \<and> cancelPendingBackground s = None)"


text \<open>
  \<open>same_control\<close>: two states agree on everything but the cache, the preflight data, the
  loading flag and the log of application callbacks. \<open>outcome_state\<close>: the state after a
  call that returned or threw.
\<close>

definition same_control :: "engine \<Rightarrow> engine \<Rightarrow> bool" where
  "same_control s s' =
     (gates s' = gates s \<and> cancelPendingBackground s' = cancelPendingBackground s
      \<and> visits s' = visits s \<and> renders s' = renders s \<and> patched s' = patched s)"

definition outcome_state :: "engine outcome \<Rightarrow> engine option" where
  "outcome_state r = (case r of Returned s \<Rightarrow> Some s | Threw e s \<Rightarrow> Some s | Hung \<Rightarrow> None)"

definition store_ok :: "engine \<Rightarrow> bool" where
  "store_ok s = distinct (map fst (cache_store s))"


text \<open>Gate \<open>n\<close> exists and its latch is set; an event that can trigger a gate.\<close>

definition fired :: "nat \<Rightarrow> engine \<Rightarrow> bool" where
  "fired n s = (n < length (gates s) \<and> backgroundFired (gates s ! n))"



text \<open>
  The examples of the test suite: a wiring with the matcher of a manifest on the example
  platform, the window of the tests (a signed-in user on \<^verbatim>\<open>/dashboard\<close>), the manifest
  \<^verbatim>\<open>/users/:id\<close>, a manifest with the excluded route \<^verbatim>\<open>/admin\<close>, and a page of the server.
\<close>

definition example_wiring :: "Force10Config \<Rightarrow> ManifestRoute list \<Rightarrow> bool \<Rightarrow> wiring" where
  "example_wiring cfg rs pre =
     \<lparr>config = cfg,
      matcher = (case createMatcher example_platform rs cfg of
                   Inr mt \<Rightarrow> mt
                 | Inl e \<Rightarrow> \<lparr>match = (\<lambda>u. None), isExcluded = (\<lambda>u. False)\<rparr>),
      preflight_attached = pre,
      host = example_platform\<rparr>"

definition example_window :: "window option" where
  "example_window =
     Some \<lparr>history_state_page =
             Some \<lparr>page_component = ''Dashboard'',
                   page_props = [(''auth'', AuthBlock (Some ''1''))],
                   page_url = ''/dashboard''\<rparr>,
           location_origin = ''http://localhost''\<rparr>"


definition users_wiring :: wiring where
  "users_wiring = example_wiring defaultConfig [users_show] False"

definition users_5 :: MatchResult where
  "users_5 = \<lparr>route = users_show, params = [(''id'', ''5'')], match_url = ''/users/5''\<rparr>"

definition admin_route :: ManifestRoute where
  "admin_route = \<lparr>pattern = ''/admin'', route_component = ''Admin'', middleware = [],
     parameters = []\<rparr>"

definition admin_wiring :: wiring where
  "admin_wiring = example_wiring (defaultConfig\<lparr>routes_exclude := [''/admin*'', ''/api/*'']\<rparr>)
     [admin_route] False"

definition invalidating_page :: "string \<Rightarrow> string \<Rightarrow> string list \<Rightarrow> Page" where
  "invalidating_page c u pats =
     \<lparr>page_component = c,
      page_props = [(''users'', Data ''[]''), (''_force10_server'', Force10ServerBlock (Some pats))],
      page_url = u\<rparr>"

definition server_page :: "string \<Rightarrow> string \<Rightarrow> Page" where
  "server_page c u = \<lparr>page_component = c, page_props = [(''users'', Data ''[]'')], page_url = u\<rparr>"

text \<open>The keys of the cache after a callback, and who issued the visits of a run.\<close>

definition stored_keys :: "engine outcome \<Rightarrow> string list option" where
  "stored_keys r = map_option (map fst \<circ> cache_store) (outcome_state r)"

definition issuers :: "engine option \<Rightarrow> issuer list option" where
  "issuers r = map_option (map call_issuer \<circ> visits) r"


text \<open>The state after an optimistic navigation to \<^verbatim>\<open>/users/5\<close> on a fresh engine.\<close>

definition after_first_visit :: engine where
  "after_first_visit =
     patchedVisit users_wiring example_window 0 (HrefString ''/users/5'') None (applyPatch [])"

text \<open>
  The invalidation directives of a response (\<^verbatim>\<open>page.props?._force10_server?.invalidate\<close>, none
  when absent); a pattern that \<^verbatim>\<open>patternToRegex\<close> compiles, and a key that the compiled
  pattern matches, which \<^verbatim>\<open>invalidateByPattern\<close> removes.
\<close>

definition directives :: "Page \<Rightarrow> string list" where
  "directives page = (case props_invalidate (page_props page) of None \<Rightarrow> [] | Some pats \<Rightarrow> pats)"

definition pattern_compiles :: "string \<Rightarrow> bool" where
  "pattern_compiles p = (case patternToRegex p of Inl e \<Rightarrow> False | Inr r \<Rightarrow> True)"

definition pattern_removes :: "string \<Rightarrow> string \<Rightarrow> bool" where
  "pattern_removes p key = (case patternToRegex p of Inl e \<Rightarrow> False | Inr r \<Rightarrow> RegExp_test r key)"

section \<open>Preflight: the three-valued check\<close>

lemma get_property_Own:
  "get_property d g = Own r \<longleftrightarrow> map_of d g = Some r"
  by (auto simp: get_property_def split: option.splits)

lemma get_property_Inherited:
  "get_property d g = Inherited \<longleftrightarrow> map_of d g = None \<and> g \<in> set Object_prototype_names"
  by (auto simp: get_property_def split: option.splits)











section \<open>The cache: bound, eviction order and staleness\<close>

lemma store_delete_keys: "map fst (store_delete k s) = filter (\<lambda>k'. k' \<noteq> k) (map fst s)"
  by (induction s) (auto simp: store_delete_def)

lemma store_delete_distinct: "distinct (map fst s) \<Longrightarrow> distinct (map fst (store_delete k s))"
  by (simp add: store_delete_keys)

lemma store_delete_length: "length (store_delete k s) \<le> length s"
  by (simp add: store_delete_def)

lemma store_delete_absent: "k \<notin> fst ` set s \<Longrightarrow> store_delete k s = s"
  by (induction s) (auto simp: store_delete_def)

lemma store_delete_head:
  "distinct (map fst ((k, v) # rest)) \<Longrightarrow> store_delete k ((k, v) # rest) = rest"
  using store_delete_absent[of k rest] by (simp add: store_delete_def)

lemma store_set_absent: "k \<notin> fst ` set s \<Longrightarrow> store_set k v s = s @ [(k, v)]"
  by (induction s) (auto simp: store_set_def)

lemma evictIfNeeded_drop:
  "0 \<le> m \<Longrightarrow> distinct (map fst s) \<Longrightarrow>
   evictIfNeeded m s = Some (drop (length s - nat m) s)"
proof (induction s)
  case Nil
  then show ?case by simp
next
  case (Cons x s)
  obtain k v where x: "x = (k, v)" by (cases x)
  have d: "store_delete k ((k, v) # s) = s"
    using Cons.prems(2) x store_delete_head by blast
  show ?case
  proof (cases "int (length (x # s)) > m")
    case True
    then have "Suc (length s) - nat m = Suc (length s - nat m)"
      using Cons.prems(1) by (simp add: Suc_diff_le nat_le_iff)
    then show ?thesis
      using True Cons x d by simp
  next
    case False
    then have "Suc (length s) - nat m = 0" by simp
    then show ?thesis using False x by simp
  qed
qed

lemma cache_set_drop:
  assumes "0 \<le> m" "distinct (map fst s)"
  shows "cache_set m u p s =
     Some (drop (Suc (length (store_delete u s)) - nat m) (store_delete u s @ [(u, p)]))"
proof -
  have "u \<notin> fst ` set (store_delete u s)"
    by (auto simp: store_delete_def)
  then have t: "store_set u p (store_delete u s) = store_delete u s @ [(u, p)]"
    by (rule store_set_absent)
  have "distinct (map fst (store_delete u s @ [(u, p)]))"
    using assms(2) by (auto simp: store_delete_keys)
  then show ?thesis
    unfolding cache_set_def t using evictIfNeeded_drop[OF assms(1)] by simp
qed

lemma cache_set_inv:
  assumes "0 \<le> m" "distinct (map fst s)"
  shows "\<exists>s'. cache_set m u p s = Some s' \<and> cache_inv m s'"
proof -
  define t where "t = store_delete u s @ [(u, p)]"
  have d: "distinct (map fst t)"
    using assms(2) by (auto simp: t_def store_delete_keys)
  have l: "length t = Suc (length (store_delete u s))"
    by (simp add: t_def)
  have 1: "distinct (map fst (drop (length t - nat m) t))"
    using d by (metis distinct_drop drop_map)
  have 2: "int (length (drop (length t - nat m) t)) \<le> m"
    using assms(1) by auto
  have "cache_set m u p s = Some (drop (length t - nat m) t)"
    using cache_set_drop[OF assms, of u p] by (simp only: l t_def[symmetric])
  then show ?thesis
    using 1 2 by (simp add: cache_inv_def)
qed

lemma invalidate_fold_inv:
  "distinct (map fst s) \<Longrightarrow>
   distinct (map fst (fold (\<lambda>key st. if P key then store_delete key st else st) ks s)) \<and>
   length (fold (\<lambda>key st. if P key then store_delete key st else st) ks s) \<le> length s"
proof (induction ks arbitrary: s)
  case Nil
  then show ?case by simp
next
  case (Cons k ks)
  show ?case
  proof (cases "P k")
    case True
    have "length (store_delete k s) \<le> length s" by (rule store_delete_length)
    then show ?thesis
      using True Cons.IH[OF store_delete_distinct[OF Cons.prems, of k]] by auto
  next
    case False
    then show ?thesis using Cons by simp
  qed
qed

lemma store_set_present_keys:
  "map_of s k = Some e \<Longrightarrow> map fst (store_set k v s) = map fst s"
  by (induction s) (auto simp: store_set_def split: if_splits)

lemma store_set_present_length:
  "map_of s k = Some e \<Longrightarrow> length (store_set k v s) = length s"
  using store_set_present_keys[of s k e v] by (metis length_map)

lemma cache_after_inv:
  assumes "0 \<le> m" "cache_inv m s"
  shows "\<exists>s'. cache_after m x s = Some s' \<and> cache_inv m s'"
proof (cases x)
  case (OpSet u p)
  then show ?thesis using cache_set_inv[OF assms(1)] assms(2) by (simp add: cache_inv_def)
next
  case (OpRemove u)
  then show ?thesis
    using assms(2) store_delete_length[of u s]
    by (auto simp: cache_inv_def cache_remove_def store_delete_distinct)
next
  case OpClear
  then show ?thesis using assms by (simp add: cache_inv_def cache_clear_def)
next
  case (OpInvalidate pat)
  show ?thesis
  proof (cases "patternToRegex pat")
    case (Inl e)
    then show ?thesis using OpInvalidate assms(2) by (simp add: invalidateByPattern_def)
  next
    case (Inr r)
    then show ?thesis
      using OpInvalidate assms(2) invalidate_fold_inv[of s "RegExp_test r" "map fst s"]
      by (auto simp: invalidateByPattern_def cache_inv_def)
  qed
next
  case (OpUpdateProps now u p)
  then show ?thesis
    using assms(2)
    by (auto simp: updateProps_def store_get_def cache_inv_def store_set_present_keys
        store_set_present_length split: option.splits)
qed

lemma cache_run_inv:
  "0 \<le> m \<Longrightarrow> cache_inv m s \<Longrightarrow> \<exists>s'. cache_run m xs s = Some s' \<and> cache_inv m s'"
proof (induction xs arbitrary: s)
  case Nil
  then show ?case by simp
next
  case (Cons x xs)
  from cache_after_inv[OF Cons.prems, of x]
  obtain s1 where s1: "cache_after m x s = Some s1" "cache_inv m s1" by blast
  then show ?case using Cons.IH[OF Cons.prems(1) s1(2)] by simp
qed

lemma four_keys:
  assumes "distinct [k1, k2, k3, k4]"
  shows "cache_run 3 [OpSet k1 p1, OpSet k2 p2, OpSet k3 p3, OpSet k4 p4] []
     = Some [(k2, p2), (k3, p3), (k4, p4)]"
proof -
  have 1: "cache_set 3 k1 p1 [] = Some [(k1, p1)]"
    by (simp add: cache_set_drop store_delete_def)
  have 2: "cache_set 3 k2 p2 [(k1, p1)] = Some [(k1, p1), (k2, p2)]"
    using assms by (simp add: cache_set_drop store_delete_def)
  have 3: "cache_set 3 k3 p3 [(k1, p1), (k2, p2)] = Some [(k1, p1), (k2, p2), (k3, p3)]"
    using assms by (simp add: cache_set_drop store_delete_def)
  have 4: "cache_set 3 k4 p4 [(k1, p1), (k2, p2), (k3, p3)] = Some [(k2, p2), (k3, p3), (k4, p4)]"
    using assms by (simp add: cache_set_drop store_delete_def)
  show ?thesis by (simp add: 1 2 3 4)
qed

text \<open>
  Claim C5. With a non-negative \<open>maxEntries\<close>, after any sequence of cache operations on an
  initially empty cache every operation has returned, the store holds at most one entry per
  key and at most \<open>maxEntries\<close> entries; \<^verbatim>\<open>set\<close> removes the entry of the key, appends the
  new one at the most recent position and keeps the newest \<open>maxEntries\<close> entries, that is,
  evicts from the oldest end until the size is within the bound; and with \<open>maxEntries = 3\<close>
  four sets on distinct keys leave exactly the last three keys, the first is gone and the
  fourth is retrievable.
\<close>

theorem cache_bounded_oldest_first:
  "0 \<le> m \<longrightarrow>
     (\<forall>xs. \<exists>s. cache_run m xs [] = Some s \<and> distinct (map fst s) \<and> int (length s) \<le> m)
   \<and> (\<forall>(s::store) u p. distinct (map fst s) \<longrightarrow>
         cache_set m u p s =
           Some (drop (Suc (length (store_delete u s)) - nat m) (store_delete u s @ [(u, p)])))
   \<and> (\<forall>k1 k2 k3 k4 p1 p2 p3 p4. distinct [k1, k2, k3, k4] \<longrightarrow>
         (\<exists>s. cache_run 3 [OpSet k1 p1, OpSet k2 p2, OpSet k3 p3, OpSet k4 p4] [] = Some s
            \<and> map fst s = [k2, k3, k4] \<and> store_get s k1 = None \<and> store_get s k4 = Some p4
            \<and> (\<forall>ttl now. \<not> isExpired ttl now p4 \<longrightarrow> cache_get ttl now s k4 = Some p4)))"
proof (intro impI conjI allI)
  fix xs assume m: "0 \<le> m"
  have "cache_inv m []" using m by (simp add: cache_inv_def)
  from cache_run_inv[OF m this, of xs]
  show "\<exists>s. cache_run m xs [] = Some s \<and> distinct (map fst s) \<and> int (length s) \<le> m"
    by (simp add: cache_inv_def)
next
  fix s :: store and u p assume "0 \<le> m" "distinct (map fst s)"
  then show "cache_set m u p s =
      Some (drop (Suc (length (store_delete u s)) - nat m) (store_delete u s @ [(u, p)]))"
    by (rule cache_set_drop)
next
  fix k1 k2 k3 k4 :: string and p1 p2 p3 p4 :: CachedPage
  assume d: "distinct [k1, k2, k3, k4]"
  show "\<exists>s. cache_run 3 [OpSet k1 p1, OpSet k2 p2, OpSet k3 p3, OpSet k4 p4] [] = Some s
      \<and> map fst s = [k2, k3, k4] \<and> store_get s k1 = None \<and> store_get s k4 = Some p4
      \<and> (\<forall>ttl now. \<not> isExpired ttl now p4 \<longrightarrow> cache_get ttl now s k4 = Some p4)"
    using d unfolding four_keys[OF d] by (auto simp: store_get_def cache_get_def)
qed

text \<open>The test of the cache with \<open>maxEntries = 3\<close> and four pages.\<close>

theorem cache_bounded_oldest_first_witness:
  "(0::int) \<le> 3
   \<and> (\<exists>s. cache_run 3 [OpSet ''/page1'' (example_page ''/page1'' 0),
                       OpSet ''/page2'' (example_page ''/page2'' 0),
                       OpSet ''/page3'' (example_page ''/page3'' 0),
                       OpSet ''/page4'' (example_page ''/page4'' 0)] [] = Some s
        \<and> map fst s = [''/page2'', ''/page3'', ''/page4'']
        \<and> cache_get 300000 0 s ''/page1'' = None
        \<and> cache_get 300000 0 s ''/page4'' = Some (example_page ''/page4'' 0))"
proof -
  have d: "distinct [''/page1'', ''/page2'', ''/page3'', ''/page4'']" by simp
  have e: "\<not> isExpired 300000 0 (example_page ''/page4'' 0)"
    by (simp add: isExpired_def example_page_def)
  from cache_bounded_oldest_first[of 3] d e
  obtain s where s: "cache_run 3 [OpSet ''/page1'' (example_page ''/page1'' 0),
                       OpSet ''/page2'' (example_page ''/page2'' 0),
                       OpSet ''/page3'' (example_page ''/page3'' 0),
                       OpSet ''/page4'' (example_page ''/page4'' 0)] [] = Some s"
     "map fst s = [''/page2'', ''/page3'', ''/page4'']"
     "store_get s ''/page1'' = None"
     "cache_get 300000 0 s ''/page4'' = Some (example_page ''/page4'' 0)"
    by (metis zero_le_numeral)
  have "cache_get 300000 0 s ''/page1'' = None"
    using s(3) by (simp add: cache_get_def)
  then show ?thesis using s by auto
qed


lemma cache_set_lookup:
  assumes "1 \<le> m" "distinct (map fst s)"
  shows "\<exists>s'. cache_set m u p s = Some s' \<and> store_get s' u = Some p"
proof -
  define t where "t = store_delete u s"
  have "Suc (length t) - nat m \<le> length t"
    using assms(1) by auto
  then have "drop (Suc (length t) - nat m) (t @ [(u, p)]) = drop (Suc (length t) - nat m) t @ [(u, p)]"
    by simp
  moreover have "u \<notin> fst ` set (drop (Suc (length t) - nat m) t)"
    by (auto simp: t_def store_delete_def dest: in_set_dropD)
  ultimately have "map_of (drop (Suc (length t) - nat m) (t @ [(u, p)])) u = Some p"
    by (simp add: map_add_Some_iff map_of_eq_None_iff)
  then show ?thesis
    using cache_set_drop[of m s u p] assms by (simp add: t_def store_get_def)
qed

text \<open>
  Claim C6. \<^verbatim>\<open>get\<close> returns none iff the URL has no stored entry or the entry is stale
  (\<open>now - timestamp > ttl\<close>), and the entry otherwise; \<^verbatim>\<open>getOrStale\<close> returns none iff the
  URL has no stored entry, and otherwise the entry with the flag \<open>isStale\<close>, true exactly
  when \<open>now - timestamp > ttl\<close>; after a \<^verbatim>\<open>set\<close>, once the time is beyond the \<open>ttl\<close>,
  \<^verbatim>\<open>get\<close> returns none and \<^verbatim>\<open>getOrStale\<close> the entry flagged stale.
\<close>

theorem cache_get_and_getOrStale:
  "(cache_get ttl now s u = None \<longleftrightarrow>
      (store_get s u = None \<or> (\<exists>e. store_get s u = Some e \<and> now - timestamp e > ttl)))
   \<and> (\<forall>e. store_get s u = Some e \<and> \<not> now - timestamp e > ttl \<longrightarrow> cache_get ttl now s u = Some e)
   \<and> (getOrStale ttl now s u = None \<longleftrightarrow> store_get s u = None)
   \<and> (\<forall>e. store_get s u = Some e \<longrightarrow>
         getOrStale ttl now s u = Some (e, now - timestamp e > ttl))
   \<and> (\<forall>m p s'. 1 \<le> m \<and> distinct (map fst s) \<and> cache_set m u p s = Some s' \<and>
         now - timestamp p > ttl \<longrightarrow>
         cache_get ttl now s' u = None \<and> getOrStale ttl now s' u = Some (p, True))"
proof -
  have last: "cache_get ttl now s' u = None \<and> getOrStale ttl now s' u = Some (p, True)"
    if "1 \<le> m" "distinct (map fst s)" "cache_set m u p s = Some s'" "now - timestamp p > ttl"
    for m p s'
    using cache_set_lookup[OF that(1,2), of u p] that(3,4)
    by (auto simp: cache_get_def getOrStale_def isExpired_def)
  have a: "cache_get ttl now s u = None \<longleftrightarrow>
      (store_get s u = None \<or> (\<exists>e. store_get s u = Some e \<and> now - timestamp e > ttl))"
    by (auto simp: cache_get_def isExpired_def split: option.splits)
  have b: "\<forall>e. store_get s u = Some e \<and> \<not> now - timestamp e > ttl \<longrightarrow> cache_get ttl now s u = Some e"
    by (auto simp: cache_get_def isExpired_def)
  have c: "getOrStale ttl now s u = None \<longleftrightarrow> store_get s u = None"
    by (auto simp: getOrStale_def split: option.splits)
  have d: "\<forall>e. store_get s u = Some e \<longrightarrow>
         getOrStale ttl now s u = Some (e, now - timestamp e > ttl)"
    by (auto simp: getOrStale_def isExpired_def)
  show ?thesis
    using a b c d last by blast
qed

text \<open>The test of the cache: \<open>ttl = 1000\<close>, a set at time 0, lookups at 1500 and at 1000.\<close>

theorem cache_get_and_getOrStale_witness:
  "cache_set 50 ''/users'' (example_page ''/users'' 0) [] = Some [(''/users'', example_page ''/users'' 0)]
   \<and> cache_get 1000 1500 [(''/users'', example_page ''/users'' 0)] ''/users'' = None
   \<and> getOrStale 1000 1500 [(''/users'', example_page ''/users'' 0)] ''/users''
       = Some (example_page ''/users'' 0, True)
   \<and> cache_get 1000 1000 [(''/users'', example_page ''/users'' 0)] ''/users''
       = Some (example_page ''/users'' 0)"
proof -
  let ?p = "example_page ''/users'' 0"
  have s: "cache_set 50 ''/users'' ?p [] = Some [(''/users'', ?p)]"
    by (simp add: cache_set_def store_delete_def store_set_def)
  have g: "store_get [(''/users'', ?p)] ''/users'' = Some ?p"
    by (simp add: store_get_def)
  have t: "timestamp ?p = 0" by (simp add: example_page_def)
  note th = cache_get_and_getOrStale[of 1000 1500 "[]" "''/users''"]
  note th2 = cache_get_and_getOrStale[of 1000 1000 "[(''/users'', ?p)]" "''/users''"]
  have a: "cache_get 1000 1500 [(''/users'', ?p)] ''/users'' = None
      \<and> getOrStale 1000 1500 [(''/users'', ?p)] ''/users'' = Some (?p, True)"
    using th[THEN conjunct2, THEN conjunct2, THEN conjunct2, THEN conjunct2, rule_format,
        of 50 ?p "[(''/users'', ?p)]"] s t by simp
  have b: "cache_get 1000 1000 [(''/users'', ?p)] ''/users'' = Some ?p"
    using th2 g t by simp
  show ?thesis using s a b by simp
qed


section \<open>The compilers of regular expressions and the matcher\<close>

lemma lex_piece:
  "lex_rx (exclude_piece g @ rest) =
     (case lex_rx rest of Inl e \<Rightarrow> Inl e | Inr ts \<Rightarrow> Inr (glob_toks g @ ts))"
  by (auto simp: exclude_piece_def glob_toks_def escapeRegex_def lex1_def syntax_chars_def
      split: sum.splits)

lemma lex_pieces:
  "lex_rx (concat (map exclude_piece p) @ rest) =
     (case lex_rx rest of Inl e \<Rightarrow> Inl e | Inr ts \<Rightarrow> Inr (concat (map glob_toks p) @ ts))"
proof (induction p)
  case Nil
  then show ?case by (simp split: sum.splits)
next
  case (Cons g p)
  have "lex_rx (concat (map exclude_piece (g # p)) @ rest)
      = lex_rx (exclude_piece g @ (concat (map exclude_piece p) @ rest))" by simp
  also have "\<dots> = (case lex_rx (concat (map exclude_piece p) @ rest) of
       Inl e \<Rightarrow> Inl e | Inr ts \<Rightarrow> Inr (glob_toks g @ ts))"
    by (rule lex_piece)
  finally show ?case
    by (simp add: Cons.IH split: sum.splits)
qed

lemma parse_piece:
  "parse_toks (glob_toks g @ ts) n cur stk = parse_toks ts n (glob_term g # cur) stk"
  by (simp add: glob_toks_def glob_term_def quantify_def)

lemma parse_pieces:
  "parse_toks (concat (map glob_toks p) @ ts) n cur stk
     = parse_toks ts n (rev (map glob_term p) @ cur) stk"
proof (induction p arbitrary: cur)
  case Nil
  then show ?case by simp
next
  case (Cons g p)
  have "parse_toks (concat (map glob_toks (g # p)) @ ts) n cur stk
      = parse_toks (glob_toks g @ (concat (map glob_toks p) @ ts)) n cur stk" by simp
  also have "\<dots> = parse_toks (concat (map glob_toks p) @ ts) n (glob_term g # cur) stk"
    by (rule parse_piece)
  finally show ?case by (simp add: Cons.IH)
qed

lemma excludePatternSource_pieces:
  "excludePatternSource p = CHR ''^'' # concat (map exclude_piece p) @ ''$''"
  by (simp add: excludePatternSource_def exclude_piece_def cong: map_cong)

lemma excludePatternToRegex_eq:
  "excludePatternToRegex p = Inr (Bol # map glob_term p @ [Eol])"
proof -
  have "lex_rx (CHR ''^'' # concat (map exclude_piece p) @ ''$'')
      = Inr (TBol # concat (map glob_toks p) @ [TEol])"
    by (simp add: lex_pieces lex1_def)
  then show ?thesis
    by (simp add: excludePatternToRegex_def RegExp_new_def excludePatternSource_pieces
        parse_pieces)
qed

lemma m_seq_nonempty_Cons:
  "m_seq (r # rs) st \<noteq> [] \<longleftrightarrow> (\<exists>st' \<in> set (m_rx r st). m_seq rs st' \<noteq> [])"
  by (auto simp: concat_eq_Nil_conv)

lemma glob_terms_accept:
  "m_seq (map glob_term p @ [Eol]) (pos, s, caps) \<noteq> [] \<longleftrightarrow> glob_accepts p s"
proof (induction p arbitrary: pos s)
  case Nil
  then show ?case by simp
next
  case (Cons g p)
  show ?case
  proof (cases "g = CHR ''*''")
    case True
    then have gt: "glob_term g = Many Dot 0 True"
      by (simp add: glob_term_def)
    have "m_seq (map glob_term (g # p) @ [Eol]) (pos, s, caps) \<noteq> [] \<longleftrightarrow>
        (\<exists>j \<in> set [0 ..< Suc (length (takeWhile (cls_test Dot) s))].
           m_seq (map glob_term p @ [Eol]) (pos + j, drop j s, caps) \<noteq> [])"
      by (auto simp: gt m_seq_nonempty_Cons Let_def simp del: m_seq.simps(2) upt_Suc)
    then show ?thesis
      using True by (simp add: Cons.IH list_ex_iff del: upt_Suc)
  next
    case False
    then have gt: "glob_term g = (if g = CHR ''?'' then One Dot else One (Lit g))"
      by (simp add: glob_term_def)
    show ?thesis
      using False by (cases s) (auto simp: gt Cons.IH cls_test_def)
  qed
qed

lemma exec_from_Bol: "exec_from (Bol # rs) (Suc n) s = None"
  by (induction s arbitrary: n) auto

lemma RegExp_test_anchored:
  "RegExp_test (Bol # rs) s \<longleftrightarrow> m_seq rs (0, s, []) \<noteq> []"
  by (cases s) (auto simp: RegExp_test_def RegExp_exec_def exec_from_Bol split: list.splits)

lemma exclude_accepts:
  "\<exists>r. excludePatternToRegex p = Inr r \<and> (\<forall>key. RegExp_test r key \<longleftrightarrow> glob_accepts p key)"
  by (simp add: excludePatternToRegex_eq RegExp_test_anchored glob_terms_accept)

lemma patternSource_eq:
  "CHR ''?'' \<notin> set p \<Longrightarrow> patternSource p = excludePatternSource p"
proof -
  assume q: "CHR ''?'' \<notin> set p"
  have "concat (map (\<lambda>c. if c = CHR ''*'' then ''.*'' else [c])
           (concat (map (\<lambda>c. if c \<in> set cache_escape_chars then [CHR 0x5C, c] else [c]) p)))
      = concat (map exclude_piece p)"
    using q
    by (induction p) (auto simp: exclude_piece_def escapeRegex_def cache_escape_chars_def syntax_chars_def)
  then show ?thesis
    by (simp add: patternSource_def excludePatternSource_pieces)
qed

lemma fold_compile_segment:
  "fold compile_segment segs (acc, names)
     = (acc @ concat (map segment_source segs), names @ concat (map segment_names segs))"
  by (induction segs arbitrary: acc names)
     (auto simp: compile_segment_def segment_source_def segment_names_def Let_def)

lemma lex_escaped:
  "lex_rx (escapeRegex seg @ rest) =
     (case lex_rx rest of Inl e \<Rightarrow> Inl e | Inr ts \<Rightarrow> Inr (map (\<lambda>c. TAtom (Lit c)) seg @ ts))"
proof (induction seg)
  case Nil
  then show ?case by (simp add: escapeRegex_def split: sum.splits)
next
  case (Cons c seg)
  have e: "escapeRegex (c # seg) = escapeRegex [c] @ escapeRegex seg"
    by (simp add: escapeRegex_def)
  have "lex_rx (escapeRegex [c] @ (escapeRegex seg @ rest))
      = (case lex_rx (escapeRegex seg @ rest) of Inl e \<Rightarrow> Inl e | Inr ts \<Rightarrow> Inr (TAtom (Lit c) # ts))"
    by (auto simp: escapeRegex_def lex1_def syntax_chars_def split: sum.splits)
  then show ?case
    by (simp add: e Cons.IH split: sum.splits)
qed

lemma lex_segment:
  "lex_rx (segment_source seg @ rest) =
     (case lex_rx rest of Inl e \<Rightarrow> Inl e | Inr ts \<Rightarrow> Inr (segment_toks seg @ ts))"
proof -
  have "lex_rx (''/'' @ escapeRegex seg @ rest) =
     (case lex_rx rest of Inl e \<Rightarrow> Inl e
      | Inr ts \<Rightarrow> Inr (TAtom (Lit CHR ''/'') # map (\<lambda>c. TAtom (Lit c)) seg @ ts))"
    by (simp add: lex1_def lex_escaped split: sum.splits)
  then show ?thesis
    by (auto simp: segment_source_def segment_toks_def lex1_def syntax_chars_def split: sum.splits)
qed

lemma lex_segments:
  "lex_rx (concat (map segment_source segs) @ rest) =
     (case lex_rx rest of Inl e \<Rightarrow> Inl e | Inr ts \<Rightarrow> Inr (concat (map segment_toks segs) @ ts))"
proof (induction segs)
  case Nil
  then show ?case by (simp split: sum.splits)
next
  case (Cons g p)
  have "lex_rx (concat (map segment_source (g # p)) @ rest)
      = lex_rx (segment_source g @ (concat (map segment_source p) @ rest))" by simp
  also have "\<dots> = (case lex_rx (concat (map segment_source p) @ rest) of
       Inl e \<Rightarrow> Inl e | Inr ts \<Rightarrow> Inr (segment_toks g @ ts))"
    by (rule lex_segment)
  finally show ?case
    by (simp add: Cons.IH split: sum.splits)
qed

lemma parse_literals:
  "parse_toks (map (\<lambda>c. TAtom (Lit c)) seg @ ts) n cur stk
     = parse_toks ts n (rev (map (\<lambda>c. One (Lit c)) seg) @ cur) stk"
  by (induction seg arbitrary: cur) auto

lemma parse_segment:
  "parse_toks (segment_toks seg @ ts) n cur stk
     = parse_toks ts (n + segment_groups seg) (rev (segment_terms n seg) @ cur) stk"
  using parse_literals[of seg ts n "One (Lit CHR ''/'') # cur" stk]
  by (auto simp: segment_toks_def segment_terms_def segment_groups_def quantify_def)

lemma parse_segments:
  "\<exists>n'. parse_toks (concat (map segment_toks segs) @ ts) n cur stk
     = parse_toks ts n' (rev (segments_terms n segs) @ cur) stk"
proof (induction segs arbitrary: n cur)
  case Nil
  then show ?case by auto
next
  case (Cons seg segs)
  have "parse_toks (concat (map segment_toks (seg # segs)) @ ts) n cur stk
      = parse_toks (segment_toks seg @ (concat (map segment_toks segs) @ ts)) n cur stk" by simp
  also have "\<dots> = parse_toks (concat (map segment_toks segs) @ ts) (n + segment_groups seg)
       (rev (segment_terms n seg) @ cur) stk"
    by (rule parse_segment)
  finally show ?case
    using Cons.IH[of "n + segment_groups seg" "rev (segment_terms n seg) @ cur"] by auto
qed

lemma compilePatternSource_eq:
  "compilePatternSource pat =
     (CHR ''^'' # concat (map segment_source (segments_of pat)) @ ''/?$'',
      concat (map segment_names (segments_of pat)))"
  by (cases "segments_of pat = []") (auto simp: compilePatternSource_def fold_compile_segment Let_def)

lemma compilePattern_total:
  "compilePattern pat =
     Inr (Bol # segments_terms 0 (segments_of pat) @ [Opt (One (Lit CHR ''/'')) True, Eol],
          concat (map segment_names (segments_of pat)))"
proof -
  let ?segs = "segments_of pat"
  have l: "lex_rx (CHR ''^'' # concat (map segment_source ?segs) @ ''/?$'')
      = Inr (TBol # concat (map segment_toks ?segs) @ [TAtom (Lit CHR ''/''), TQuant CHR ''?'', TEol])"
    by (simp add: lex_segments lex1_def)
  obtain n' where p: "parse_toks (concat (map segment_toks ?segs) @ [TAtom (Lit CHR ''/''), TQuant CHR ''?'', TEol]) 0 [Bol] []
      = parse_toks [TAtom (Lit CHR ''/''), TQuant CHR ''?'', TEol] n' (rev (segments_terms 0 ?segs) @ [Bol]) []"
    using parse_segments by blast
  have "RegExp_new (CHR ''^'' # concat (map segment_source ?segs) @ ''/?$'')
      = Inr (Bol # segments_terms 0 ?segs @ [Opt (One (Lit CHR ''/'')) True, Eol])"
    unfolding RegExp_new_def l by (simp add: p quantify_def)
  then show ?thesis
    unfolding compilePattern_def compilePatternSource_eq by simp
qed

lemma collect_all_Inr: "(\<And>x. f x = Inr (g x)) \<Longrightarrow> collect (map f xs) = Inr (map g xs)"
  by (induction xs) auto

lemma compileRoute_total: "compileRoute r = Inr (compiled_of r)"
  by (simp add: compileRoute_def compilePattern_total compiled_of_def)

lemma compiledRoutes_total:
  "compiledRoutes rs = Inr (sort_by_specificity (map compiled_of rs))"
  by (simp add: compiledRoutes_def collect_all_Inr[of compileRoute compiled_of, OF compileRoute_total])

lemma exclude_total:
  "collect (map excludePatternToRegex ps) = Inr (map (\<lambda>p. Bol # map glob_term p @ [Eol]) ps)"
  by (rule collect_all_Inr) (rule excludePatternToRegex_eq)

lemma createMatcher_total:
  "createMatcher pf rs cfg =
     Inr \<lparr>match = (\<lambda>u. match_loop pf (sort_by_specificity (map compiled_of rs)) (normalizePath pf u) u),
          isExcluded = (\<lambda>u. list_ex (\<lambda>r. RegExp_test r (normalizePath pf u))
                               (map (\<lambda>p. Bol # map glob_term p @ [Eol]) (routes_exclude cfg)))\<rparr>"
  by (simp add: createMatcher_def compiledRoutes_total exclude_total)

lemma calcSpecificity_sum:
  "calcSpecificity pat = sum_list (map segment_score (segments_of pat))"
proof -
  have "fold (\<lambda>seg score. score + segment_score seg) segs a = a + sum_list (map segment_score segs)"
    for segs a
    by (induction segs arbitrary: a) auto
  then show ?thesis by (simp add: calcSpecificity_def)
qed

lemma match_loop_find:
  "match_loop pf cs path u =
     (case find (\<lambda>c. RegExp_test (regex c) path) cs of
        None \<Rightarrow> None
      | Some c \<Rightarrow> Some \<lparr>route = compiled_route c,
                         params = extract_params pf (paramNames c) (the (RegExp_exec (regex c) path)),
                         match_url = u\<rparr>)"
  by (induction cs) (auto simp: RegExp_test_def split: option.splits)
lemma match_loop_route:
  "map_option route (match_loop pf cs path u)
     = map_option compiled_route (find (\<lambda>c. RegExp_test (regex c) path) cs)"
  by (induction cs) (auto simp: RegExp_test_def split: option.splits)

lemma sorted_desc: "sorted_wrt (\<lambda>a b. specificity a \<ge> specificity b) (sort_by_specificity cs)"
proof -
  have "sorted (map (\<lambda>c. - int (specificity c)) (sort_by_specificity cs))"
    by (simp add: sort_by_specificity_def)
  then show ?thesis
    by (simp add: sorted_map)
qed

lemma first_match_most_specific:
  assumes s: "sorted_wrt (\<lambda>a b. specificity a \<ge> specificity b) cs"
    and c: "c \<in> set cs" "P c"
    and others: "\<forall>c' \<in> set cs. P c' \<and> \<not> Q c' \<longrightarrow> specificity c' < specificity c"
    and q: "Q c"
  shows "\<exists>c'. find P cs = Some c' \<and> Q c'"
  using s c others
proof (induction cs)
  case Nil
  then show ?case by simp
next
  case (Cons x cs)
  show ?case
  proof (cases "P x")
    case True
    have "Q x"
    proof (rule ccontr)
      assume "\<not> Q x"
      then have "specificity x < specificity c" using True Cons.prems(4) by simp
      moreover have "x \<noteq> c" using \<open>\<not> Q x\<close> q by auto
      then have "c \<in> set cs" using Cons.prems(2) by simp
      then have "specificity x \<ge> specificity c" using Cons.prems(1) by simp
      ultimately show False by simp
    qed
    then show ?thesis using True by simp
  next
    case False
    then have "c \<in> set cs" using Cons.prems(2,3) by auto
    then show ?thesis
      using False Cons by simp
  qed
qed

lemma users_create_matches:
  "RegExp_test (regex (compiled_of r)) ''/users/create''" if "pattern r = ''/users/create''"
proof -
  have "RegExp_test (Bol # segments_terms 0 (segments_of ''/users/create'') @ [Opt (One (Lit CHR ''/'')) True, Eol]) ''/users/create''"
    by code_simp
  then show ?thesis using that by (simp add: compiled_of_def)
qed

lemma users_show_matches:
  "RegExp_test (regex (compiled_of r)) ''/users/create''" if "pattern r = ''/users/:id''"
proof -
  have "RegExp_test (Bol # segments_terms 0 (segments_of ''/users/:id'') @ [Opt (One (Lit CHR ''/'')) True, Eol]) ''/users/create''"
    by code_simp
  then show ?thesis using that by (simp add: compiled_of_def)
qed

lemma spec_values: "calcSpecificity ''/users/create'' = 6" "calcSpecificity ''/users/:id'' = 5"
  by code_simp+


text \<open>
  Claim C8, as the code has it. The specificity of a pattern is the sum over its segments of
  3 per static, 2 per parameter and 1 per wildcard segment; every route compiles; the
  compiled routes are a stable rearrangement of the manifest in descending specificity;
  \<^verbatim>\<open>match\<close> returns the first route in that order whose regular expression matches the
  normalised path. \<^verbatim>\<open>/users/:id\<close> (specificity 5) and \<^verbatim>\<open>/users/create\<close> (specificity 6) both
  match the path \<^verbatim>\<open>/users/create\<close>, and in a table that contains both,
  \<^verbatim>\<open>match('/users/create')\<close> returns a \<^verbatim>\<open>/users/create\<close> entry provided every other route
  that matches this path has a specificity below 6.
\<close>

theorem specificity_order_first_match:
  "(\<forall>pat. calcSpecificity pat =
      (\<Sum>seg\<leftarrow>segments_of pat. if seg = ''*'' \<or> seg = ''**'' then 1
                                else if startsWith seg '':'' then 2 else 3))
   \<and> (\<forall>r. compileRoute r = Inr (compiled_of r))
   \<and> (\<exists>m cs. createMatcher pf rs cfg = Inr m \<and> compiledRoutes rs = Inr cs
        \<and> set (map compiled_route cs) = set rs \<and> length cs = length rs
        \<and> (\<forall>c \<in> set cs. specificity c = calcSpecificity (pattern (compiled_route c)))
        \<and> sorted_wrt (\<lambda>a b. specificity a \<ge> specificity b) cs
        \<and> (\<forall>k. filter (\<lambda>c. specificity c = k) cs
               = filter (\<lambda>c. specificity c = k) (map compiled_of rs))
        \<and> (\<forall>u. map_option route (match m u)
               = map_option compiled_route
                   (find (\<lambda>c. RegExp_test (regex c) (normalizePath pf u)) cs))
        \<and> (\<forall>r \<in> set rs. pattern r = ''/users/:id'' \<longrightarrow>
              calcSpecificity (pattern r) = 5 \<and> RegExp_test (regex (compiled_of r)) ''/users/create'')
        \<and> (\<forall>r \<in> set rs. pattern r = ''/users/create'' \<longrightarrow>
              calcSpecificity (pattern r) = 6 \<and> RegExp_test (regex (compiled_of r)) ''/users/create'')
        \<and> ((\<exists>r \<in> set rs. pattern r = ''/users/:id'') \<and> (\<exists>r \<in> set rs. pattern r = ''/users/create'')
            \<and> normalizePath pf ''/users/create'' = ''/users/create''
            \<and> (\<forall>c \<in> set cs. pattern (compiled_route c) \<noteq> ''/users/create''
                   \<and> RegExp_test (regex c) ''/users/create'' \<longrightarrow> specificity c < 6)
            \<longrightarrow> (\<exists>res. match m ''/users/create'' = Some res
                   \<and> pattern (route res) = ''/users/create'')))"
proof -
  define cs where "cs = sort_by_specificity (map compiled_of rs)"
  define m where "m = \<lparr>match = (\<lambda>u. match_loop pf cs (normalizePath pf u) u),
          isExcluded = (\<lambda>u. list_ex (\<lambda>r. RegExp_test r (normalizePath pf u))
                               (map (\<lambda>p. Bol # map glob_term p @ [Eol]) (routes_exclude cfg)))\<rparr>"
  have cm: "createMatcher pf rs cfg = Inr m"
    by (simp add: createMatcher_total m_def cs_def)
  have cr: "compiledRoutes rs = Inr cs"
    by (simp add: compiledRoutes_total cs_def)
  have set_cs: "set cs = compiled_of ` set rs"
    by (simp add: cs_def sort_by_specificity_def)
  have a: "\<forall>pat. calcSpecificity pat =
      (\<Sum>seg\<leftarrow>segments_of pat. if seg = ''*'' \<or> seg = ''**'' then 1
                                else if startsWith seg '':'' then 2 else 3)"
    by (simp add: calcSpecificity_sum segment_score_def cong: map_cong)
  have b: "set (map compiled_route cs) = set rs"
    by (auto simp: set_cs compiled_of_def image_image)
  have c: "length cs = length rs"
    by (simp add: cs_def sort_by_specificity_def)
  have d: "\<forall>c \<in> set cs. specificity c = calcSpecificity (pattern (compiled_route c))"
    by (auto simp: set_cs compiled_of_def)
  have e: "sorted_wrt (\<lambda>a b. specificity a \<ge> specificity b) cs"
    unfolding cs_def by (rule sorted_desc)
  have f: "\<forall>k. filter (\<lambda>c. specificity c = k) cs
               = filter (\<lambda>c. specificity c = k) (map compiled_of rs)"
  proof
    fix k
    have "filter (\<lambda>c. - int (specificity c) = - int k) cs
        = filter (\<lambda>c. - int (specificity c) = - int k) (map compiled_of rs)"
      unfolding cs_def sort_by_specificity_def by (rule sort_key_stable)
    then show "filter (\<lambda>c. specificity c = k) cs
               = filter (\<lambda>c. specificity c = k) (map compiled_of rs)"
      by simp
  qed
  have g: "\<forall>u. map_option route (match m u)
               = map_option compiled_route
                   (find (\<lambda>c. RegExp_test (regex c) (normalizePath pf u)) cs)"
    by (simp add: m_def match_loop_route)
  have h: "\<forall>r \<in> set rs. pattern r = ''/users/:id'' \<longrightarrow>
              calcSpecificity (pattern r) = 5 \<and> RegExp_test (regex (compiled_of r)) ''/users/create''"
    using users_show_matches spec_values by simp
  have i: "\<forall>r \<in> set rs. pattern r = ''/users/create'' \<longrightarrow>
              calcSpecificity (pattern r) = 6 \<and> RegExp_test (regex (compiled_of r)) ''/users/create''"
    using users_create_matches spec_values by simp
  have j: "\<exists>res. match m ''/users/create'' = Some res \<and> pattern (route res) = ''/users/create''"
    if r: "\<exists>r \<in> set rs. pattern r = ''/users/create''"
      and n: "normalizePath pf ''/users/create'' = ''/users/create''"
      and o: "\<forall>c \<in> set cs. pattern (compiled_route c) \<noteq> ''/users/create''
                   \<and> RegExp_test (regex c) ''/users/create'' \<longrightarrow> specificity c < 6"
  proof -
    from r obtain r where r: "r \<in> set rs" "pattern r = ''/users/create''" by blast
    let ?c = "compiled_of r"
    have 1: "?c \<in> set cs" using r(1) by (simp add: set_cs)
    have 2: "RegExp_test (regex ?c) ''/users/create''" using r(2) by (rule users_create_matches)
    have 3: "specificity ?c = 6" using r(2) by (simp add: compiled_of_def spec_values)
    have 4: "pattern (compiled_route ?c) = ''/users/create''" using r(2) by (simp add: compiled_of_def)
    from first_match_most_specific[OF e 1,
        of "\<lambda>c. RegExp_test (regex c) ''/users/create''"
           "\<lambda>c. pattern (compiled_route c) = ''/users/create''"] 2 3 4 o
    obtain c' where c': "find (\<lambda>c. RegExp_test (regex c) ''/users/create'') cs = Some c'"
        "pattern (compiled_route c') = ''/users/create''"
      by auto
    from g[rule_format, of "''/users/create''"] c' n
    have "map_option route (match m ''/users/create'') = Some (compiled_route c')" by simp
    then show ?thesis using c'(2) by auto
  qed
  show ?thesis
    using a compileRoute_total cm cr b c d e f g h i j by blast
qed


lemma invalidate_fold_filter:
  "fold (\<lambda>key st. if P key then store_delete key st else st) ks s
     = filter (\<lambda>(k, _). \<not> (k \<in> set ks \<and> P k)) s"
proof (induction ks arbitrary: s)
  case Nil
  then show ?case by simp
next
  case (Cons k ks)
  then show ?case
    by (auto simp: store_delete_def intro!: filter_cong)
qed

lemma invalidate_filter:
  "patternToRegex p = Inr r \<Longrightarrow>
   invalidateByPattern p s = Inr (filter (\<lambda>(k, _). \<not> RegExp_test r k) s)"
proof -
  assume r: "patternToRegex p = Inr r"
  have "filter (\<lambda>(k, _). \<not> (k \<in> set (map fst s) \<and> RegExp_test r k)) s
      = filter (\<lambda>(k, _). \<not> RegExp_test r k) s"
    by (rule filter_cong) force+
  then show ?thesis
    by (simp add: invalidateByPattern_def r invalidate_fold_filter)
qed

text \<open>
  Where the two compilers agree. The exclude patterns of the matcher compile for every
  pattern, with \<^verbatim>\<open>*\<close> matching any run of characters and \<^verbatim>\<open>?\<close> any one character (line
  terminators apart). For a pattern without \<^verbatim>\<open>?\<close>, \<^verbatim>\<open>invalidateByPattern\<close> compiles the
  very same regular expression and removes exactly the keys that it matches, which are the
  keys the exclude-pattern compilation accepts.
\<close>

lemma invalidateByPattern_star_glob:
  "(\<exists>r. excludePatternToRegex p = Inr r \<and> (\<forall>key. RegExp_test r key \<longleftrightarrow> glob_accepts p key))
   \<and> (CHR ''?'' \<notin> set p \<longrightarrow>
        patternSource p = excludePatternSource p
        \<and> (\<exists>r. patternToRegex p = Inr r \<and> excludePatternToRegex p = Inr r
             \<and> (\<forall>key. RegExp_test r key \<longleftrightarrow> glob_accepts p key)
             \<and> (\<forall>s. invalidateByPattern p s = Inr (filter (\<lambda>(k, _). \<not> RegExp_test r k) s))))"
proof (intro conjI impI)
  show "\<exists>r. excludePatternToRegex p = Inr r \<and> (\<forall>key. RegExp_test r key \<longleftrightarrow> glob_accepts p key)"
    by (rule exclude_accepts)
next
  assume q: "CHR ''?'' \<notin> set p"
  then show "patternSource p = excludePatternSource p" by (rule patternSource_eq)
next
  assume q: "CHR ''?'' \<notin> set p"
  from exclude_accepts[of p] obtain r where
    r: "excludePatternToRegex p = Inr r" "\<forall>key. RegExp_test r key \<longleftrightarrow> glob_accepts p key"
    by blast
  have "patternToRegex p = Inr r"
    using r(1) patternSource_eq[OF q] by (simp add: patternToRegex_def excludePatternToRegex_def)
  then show "\<exists>r. patternToRegex p = Inr r \<and> excludePatternToRegex p = Inr r
             \<and> (\<forall>key. RegExp_test r key \<longleftrightarrow> glob_accepts p key)
             \<and> (\<forall>s. invalidateByPattern p s = Inr (filter (\<lambda>(k, _). \<not> RegExp_test r k) s))"
    using r invalidate_filter by blast
qed

text \<open>The test of the cache: \<^verbatim>\<open>/users/*\<close> removes \<^verbatim>\<open>/users/1\<close> and \<^verbatim>\<open>/users/2\<close>, not \<^verbatim>\<open>/about\<close>.\<close>

lemma invalidateByPattern_users_star:
  "CHR ''?'' \<notin> set ''/users/*''
   \<and> invalidateByPattern ''/users/*''
        [(''/users/1'', example_page ''/users/1'' 0), (''/users/2'', example_page ''/users/2'' 0),
         (''/about'', example_page ''/about'' 0)]
       = Inr [(''/about'', example_page ''/about'' 0)]"
proof -
  have q: "CHR ''?'' \<notin> set ''/users/*''" by simp
  from invalidateByPattern_star_glob[of "''/users/*''"] q obtain r where
    r: "\<forall>key. RegExp_test r key \<longleftrightarrow> glob_accepts ''/users/*'' key"
       "\<forall>s. invalidateByPattern ''/users/*'' s = Inr (filter (\<lambda>(k, _). \<not> RegExp_test r k) s)"
    by blast
  have g: "glob_accepts ''/users/*'' ''/users/1''" "glob_accepts ''/users/*'' ''/users/2''"
      "\<not> glob_accepts ''/users/*'' ''/about''"
    by code_simp+
  show ?thesis
    using q g by (simp add: r)
qed

text \<open>
  Claim C9 at failing inputs. In a pattern of \<^verbatim>\<open>invalidateByPattern\<close> a \<^verbatim>\<open>?\<close> is neither
  the one-character wildcard of the exclude patterns nor a literal: it reaches the regular
  expression as a quantifier. The exclude-pattern compilation of \<^verbatim>\<open>/users?page=2\<close> accepts
  the key \<^verbatim>\<open>/users?page=2\<close> and rejects \<^verbatim>\<open>/userspage=2\<close>, while
  \<^verbatim>\<open>invalidateByPattern('/users?page=2')\<close> removes \<^verbatim>\<open>/userspage=2\<close> and keeps the key equal to
  the pattern; the exclude-pattern compilation of \<^verbatim>\<open>/page?\<close> accepts \<^verbatim>\<open>/page1\<close>, which
  \<^verbatim>\<open>invalidateByPattern('/page?')\<close> keeps; and \<^verbatim>\<open>?page=2\<close>, which compiles as an exclude
  pattern, makes \<^verbatim>\<open>invalidateByPattern\<close> throw a \<open>SyntaxError\<close>.
\<close>

theorem invalidateByPattern_question_mark_quantifier:
  "(case excludePatternToRegex ''/users?page=2'' of
      Inl e \<Rightarrow> False
    | Inr r \<Rightarrow> RegExp_test r ''/users?page=2'' \<and> \<not> RegExp_test r ''/userspage=2'')
   \<and> invalidateByPattern ''/users?page=2''
        [(''/users?page=2'', example_page ''/users?page=2'' 0),
         (''/userspage=2'', example_page ''/userspage=2'' 0),
         (''/about'', example_page ''/about'' 0)]
       = Inr [(''/users?page=2'', example_page ''/users?page=2'' 0),
              (''/about'', example_page ''/about'' 0)]
   \<and> (case excludePatternToRegex ''/page?'' of Inl e \<Rightarrow> False | Inr r \<Rightarrow> RegExp_test r ''/page1'')
   \<and> invalidateByPattern ''/page?'' [(''/page1'', example_page ''/page1'' 0)]
       = Inr [(''/page1'', example_page ''/page1'' 0)]
   \<and> (case excludePatternToRegex ''?page=2'' of Inl e \<Rightarrow> False | Inr r \<Rightarrow> RegExp_test r ''?page=2'')
   \<and> invalidateByPattern ''?page=2'' [(''/about'', example_page ''/about'' 0)] = Inl SyntaxError"
  by code_simp

text \<open>The table of the test, in both orders.\<close>

theorem specificity_order_first_match_witness:
  "matched_pattern (createMatcher example_platform [users_show, users_create] defaultConfig)
       ''/users/create'' = Some ''/users/create''
   \<and> matched_pattern (createMatcher example_platform [users_create, users_show] defaultConfig)
       ''/users/create'' = Some ''/users/create''"
proof -
  have n: "normalizePath example_platform ''/users/create'' = ''/users/create''"
    by code_simp
  have p: "pattern users_show = ''/users/:id''" "pattern users_create = ''/users/create''"
    by (simp_all add: users_show_def users_create_def)
  have "matched_pattern (createMatcher example_platform rs defaultConfig) ''/users/create''
      = Some ''/users/create''"
    if rs: "set rs = {users_show, users_create}" for rs
  proof -
    from specificity_order_first_match[of example_platform rs defaultConfig]
    obtain m and cs :: "CompiledRoute list"
      where m: "createMatcher example_platform rs defaultConfig = Inr m"
      and cs: "set (map compiled_route cs) = set rs"
        "\<forall>c \<in> set cs. specificity c = calcSpecificity (pattern (compiled_route c))"
      and imp: "(\<exists>r \<in> set rs. pattern r = ''/users/:id'') \<and> (\<exists>r \<in> set rs. pattern r = ''/users/create'')
            \<and> normalizePath example_platform ''/users/create'' = ''/users/create''
            \<and> (\<forall>c \<in> set cs. pattern (compiled_route c) \<noteq> ''/users/create''
                   \<and> RegExp_test (regex c) ''/users/create'' \<longrightarrow> specificity c < 6)
            \<longrightarrow> (\<exists>res. match m ''/users/create'' = Some res
                   \<and> pattern (route res) = ''/users/create'')"
      by blast
    have "specificity c < 6" if "c \<in> set cs" "pattern (compiled_route c) \<noteq> ''/users/create''" for c
    proof -
      have "compiled_route c \<in> set rs" using that(1) cs(1) by auto
      then have "compiled_route c = users_show" using rs that(2) p by auto
      then show ?thesis using cs(2) that(1) p spec_values by simp
    qed
    then obtain res where "match m ''/users/create'' = Some res"
        "pattern (route res) = ''/users/create''"
      using imp rs p n by auto
    then show ?thesis by (simp add: matched_pattern_def m)
  qed
  from this[of "[users_show, users_create]"] this[of "[users_create, users_show]"]
  show ?thesis by auto
qed

text \<open>
  Claim C8 as stated fails for a table that also holds \<^verbatim>\<open>/users/create/:tab?\<close>: this
  pattern has specificity 8, matches \<^verbatim>\<open>/users/create\<close> and is returned.
\<close>

theorem more_specific_optional_route_counterexample:
  "matched_pattern (createMatcher example_platform [users_show, users_create, users_create_tab]
       defaultConfig) ''/users/create'' = Some ''/users/create/:tab?''"
  by code_simp

section \<open>The navigator and the patch\<close>


text \<open>
  Claim C10. \<^verbatim>\<open>optimisticNavigate\<close> asks the router for one render (\<^verbatim>\<open>replace\<close> when the
  options say so, \<^verbatim>\<open>push\<close> otherwise) of the predicted component at the URL of the match;
  whenever the cache holds an entry for that URL, whatever its age, the props are those of
  the entry, and otherwise they are a function that returns the props of the current page
  unchanged; the loading flag is set when it returns, \<^verbatim>\<open>setLoaded\<close> clears it and
  \<^verbatim>\<open>isLoading\<close> reports it; the cache and the calls of \<^verbatim>\<open>router.visit\<close> are untouched.
\<close>

theorem optimisticNavigate_props_and_loading:
  "(\<exists>pg. renders (optimisticNavigate w now m options s)
          = renders s @ [if (case options of None \<Rightarrow> False | Some opts \<Rightarrow> replace opts = Some True)
                         then Replace pg else Push pg]
       \<and> spec_component pg = route_component (route m)
       \<and> spec_url pg = match_url m
       \<and> (\<forall>entry. store_get (cache_store s) (match_url m) = Some entry
             \<longrightarrow> spec_props pg = PropsObject (props entry))
       \<and> (store_get (cache_store s) (match_url m) = None
             \<longrightarrow> (\<exists>f. spec_props pg = PropsFunction f \<and> (\<forall>currentProps. f currentProps = currentProps))))
   \<and> isLoading (optimisticNavigate w now m options s)
   \<and> \<not> isLoading (setLoaded (optimisticNavigate w now m options s))
   \<and> (\<forall>s'. isLoading s' \<longleftrightarrow> loading s')
   \<and> (\<forall>s'. \<not> isLoading (setLoaded s'))
   \<and> cache_store (optimisticNavigate w now m options s) = cache_store s
   \<and> visits (optimisticNavigate w now m options s) = visits s"
  by (auto simp: optimisticNavigate_def isLoading_def setLoaded_def getOrStale_def Let_def
      split: option.splits)

lemma cache_set_entries:
  assumes "distinct (map fst st)" "cache_set mx u p st = Some st'"
  shows "distinct (map fst st') \<and> set st' \<subseteq> insert (u, p) (set st)"
proof (cases "0 \<le> mx")
  case True
  define t where "t = store_delete u st @ [(u, p)]"
  have d: "distinct (map fst t)"
    using assms(1) by (auto simp: t_def store_delete_keys)
  have st': "st' = drop (Suc (length (store_delete u st)) - nat mx) t"
    using cache_set_drop[OF True assms(1), of u p] assms(2) by (simp add: t_def)
  have "distinct (map fst st')"
    unfolding st' using d by (metis distinct_drop drop_map)
  moreover have "set st' \<subseteq> set t"
    unfolding st' by (rule set_drop_subset)
  moreover have "set t \<subseteq> insert (u, p) (set st)"
    by (auto simp: t_def store_delete_def)
  ultimately show ?thesis by blast
next
  case False
  have "evictIfNeeded mx x = None" for x
    using False by (induction mx x rule: evictIfNeeded.induct) auto
  then show ?thesis using assms(2) by (simp add: cache_set_def)
qed

lemma invalidateByPattern_entries:
  assumes "distinct (map fst st)" "invalidateByPattern pat st = Inr st'"
  shows "distinct (map fst st') \<and> set st' \<subseteq> set st"
proof -
  from assms(2) obtain r where r: "patternToRegex pat = Inr r"
    by (auto simp: invalidateByPattern_def split: sum.splits)
  have "st' = filter (\<lambda>(k, _). \<not> RegExp_test r k) st"
    using invalidate_filter[OF r, of st] assms(2) by simp
  then show ?thesis
    using assms(1) by (auto simp: distinct_map_filter)
qed

lemma invalidate_all_entries:
  assumes "distinct (map fst st)"
  shows "(invalidate_all pats st = Inr st' \<longrightarrow> distinct (map fst st') \<and> set st' \<subseteq> set st)
       \<and> (invalidate_all pats st = Inl (e, st') \<longrightarrow> distinct (map fst st') \<and> set st' \<subseteq> set st)"
  using assms
proof (induction pats arbitrary: st)
  case Nil
  then show ?case by auto
next
  case (Cons pat pats)
  show ?case
  proof (cases "invalidateByPattern pat st")
    case (Inl err)
    then show ?thesis using Cons.prems by auto
  next
    case (Inr st1)
    from invalidateByPattern_entries[OF Cons.prems Inr]
    have 1: "distinct (map fst st1)" "set st1 \<subseteq> set st" by auto
    from Cons.IH[OF 1(1)] 1(2) Inr show ?thesis by auto
  qed
qed

lemma store_get_distinct:
  "distinct (map fst st) \<Longrightarrow> store_get st u = Some e \<longleftrightarrow> (u, e) \<in> set st"
  by (simp add: store_get_def)

lemma store_get_remove:
  "store_get (cache_remove u st) k = (if k = u then None else store_get st k)"
  by (induction st) (auto simp: store_get_def cache_remove_def store_delete_def)

lemma background_success_entries:
  assumes d: "distinct (map fst (cache_store s))"
    and c: "page_component page = route_component (route m)"
  shows "case run_onSuccess w now (BackgroundOnSuccess m (map_option AppOnSuccess k)) page s of
           Returned s' \<Rightarrow> distinct (map fst (cache_store s'))
               \<and> set (cache_store s') \<subseteq> insert (match_url m, entry_of page now) (set (cache_store s))
               \<and> \<not> loading s'
               \<and> app_calls s' = app_calls s @ (case k of None \<Rightarrow> [] | Some j \<Rightarrow> [(j, ArgPage page)])
         | Threw e s' \<Rightarrow> distinct (map fst (cache_store s'))
               \<and> set (cache_store s') \<subseteq> insert (match_url m, entry_of page now) (set (cache_store s))
         | Hung \<Rightarrow> cache_maxEntries (config w) < 0"
proof -
  define s1 where "s1 = (case props_preflight (page_props page) of
                  None \<Rightarrow> s
                | Some d \<Rightarrow> if preflight_attached w
                            then s\<lparr>preflight_data := preflight_update d (preflight_data s)\<rparr>
                            else s)"
  have s1: "cache_store s1 = cache_store s" "app_calls s1 = app_calls s"
    by (auto simp: s1_def split: option.splits)
  show ?thesis
  proof (cases "cache_set (cache_maxEntries (config w)) (match_url m) (entry_of page now) (cache_store s)")
    case None
    have "cache_maxEntries (config w) < 0"
    proof (rule ccontr)
      assume "\<not> cache_maxEntries (config w) < 0"
      then have "0 \<le> cache_maxEntries (config w)" by simp
      from cache_set_drop[OF this d] None show False by simp
    qed
    then show ?thesis
      using None c s1 by (simp add: s1_def[symmetric])
  next
    case (Some st)
    from cache_set_entries[OF d Some]
    have st: "distinct (map fst st)" "set st \<subseteq> insert (match_url m, entry_of page now) (set (cache_store s))"
      by auto
    define pats where "pats = (case props_invalidate (page_props page) of None \<Rightarrow> [] | Some pats \<Rightarrow> pats)"
    show ?thesis
    proof (cases "invalidate_all pats st")
      case (Inl a)
      obtain e st' where a: "a = (e, st')" by (cases a)
      from invalidate_all_entries[OF st(1), of pats st' e] Inl a
      have "distinct (map fst st')" "set st' \<subseteq> set st" by auto
      then show ?thesis
        using Some c s1 st(2) Inl a
        by (auto simp: s1_def[symmetric] pats_def[symmetric])
    next
      case (Inr st')
      from invalidate_all_entries[OF st(1), of pats st'] Inr
      have "distinct (map fst st')" "set st' \<subseteq> set st" by auto
      then show ?thesis
        using Some c s1 st(2) Inr
        by (cases k) (auto simp: s1_def[symmetric] pats_def[symmetric] setLoaded_def)
    qed
  qed
qed
lemma inv_applyPatch: "engine_inv (applyPatch pd)"
  by (simp add: engine_inv_def applyPatch_def deferred_calls_def)

lemma inv_None_settled:
  "engine_inv s \<Longrightarrow> cancelPendingBackground s = None \<Longrightarrow> all_settled s"
  by (auto simp: engine_inv_def all_settled_def in_set_conv_nth)

lemma cancel_pending_None: "cancelPendingBackground s = None \<Longrightarrow> cancel_pending s = s"
  by (simp add: cancel_pending_def)

lemma cancel_pending_Some:
  assumes "engine_inv s" "cancelPendingBackground s = Some n"
  shows "cancel_pending s = s\<lparr>gates := (gates s)[n := (gates s ! n)\<lparr>backgroundFired := True,
              listening := False, timer_armed := False\<rparr>],
            loading := False, cancelPendingBackground := None\<rparr>"
  using assms
  by (auto simp: cancel_pending_def cancel_closure_def engine_inv_def setLoaded_def Let_def)

lemma engine_inv_cong:
  assumes "gates s' = gates s" "cancelPendingBackground s' = cancelPendingBackground s"
    "\<And>n. deferred_calls n s' = deferred_calls n s" "cache_store s' = cache_store s"
  shows "engine_inv s' = engine_inv s"
  using assms by (simp add: engine_inv_def)

lemma originalVisit_fields [simp]:
  "gates (originalVisit who h opts s) = gates s"
  "cancelPendingBackground (originalVisit who h opts s) = cancelPendingBackground s"
  "cache_store (originalVisit who h opts s) = cache_store s"
  "loading (originalVisit who h opts s) = loading s"
  "renders (originalVisit who h opts s) = renders s"
  "patched (originalVisit who h opts s) = patched s"
  "visits (originalVisit who h opts s)
     = visits s @ [\<lparr>call_href = h, call_options = opts, call_issuer = who\<rparr>]"
  by (simp_all add: originalVisit_def)

lemma originalVisit_deferred:
  "deferred_calls n (originalVisit who h opts s)
     = deferred_calls n s @ (if who = Deferred n
                              then [\<lparr>call_href = h, call_options = opts, call_issuer = who\<rparr>] else [])"
  by (simp add: deferred_calls_def)

lemma optimisticNavigate_fields [simp]:
  "gates (optimisticNavigate w now m opts s) = gates s"
  "cancelPendingBackground (optimisticNavigate w now m opts s) = cancelPendingBackground s"
  "cache_store (optimisticNavigate w now m opts s) = cache_store s"
  "loading (optimisticNavigate w now m opts s) = True"
  "visits (optimisticNavigate w now m opts s) = visits s"
  "patched (optimisticNavigate w now m opts s) = patched s"
  "length (renders (optimisticNavigate w now m opts s)) = Suc (length (renders s))"
  by (simp_all add: optimisticNavigate_def Let_def)

lemma optimisticNavigate_deferred [simp]:
  "deferred_calls n (optimisticNavigate w now m opts s) = deferred_calls n s"
  by (simp add: deferred_calls_def)

lemma arm_gate_fields [simp]:
  "gates (arm_gate h bg s) = gates s @ [\<lparr>backgroundFired = False, listening = True,
       timer_armed = True, gate_href = h, backgroundOptions = bg\<rparr>]"
  "cancelPendingBackground (arm_gate h bg s) = Some (length (gates s))"
  "cache_store (arm_gate h bg s) = cache_store s"
  "loading (arm_gate h bg s) = loading s"
  "visits (arm_gate h bg s) = visits s"
  "renders (arm_gate h bg s) = renders s"
  "patched (arm_gate h bg s) = patched s"
  by (simp_all add: arm_gate_def)

lemma arm_gate_deferred [simp]: "deferred_calls n (arm_gate h bg s) = deferred_calls n s"
  by (simp add: deferred_calls_def)

lemma inv_passthrough:
  assumes "engine_inv s" "\<forall>k. who \<noteq> Deferred k"
  shows "engine_inv (originalVisit who h opts s)"
proof -
  have "deferred_calls n (originalVisit who h opts s) = deferred_calls n s" for n
    using assms(2) by (cases who) (auto simp: originalVisit_deferred)
  then show ?thesis
    using assms(1) by (simp add: engine_inv_cong[of "originalVisit who h opts s" s])
qed

lemma cancel_pending_facts:
  assumes inv: "engine_inv s"
  shows "engine_inv (cancel_pending s)"
    and "all_settled (cancel_pending s)"
    and "visits (cancel_pending s) = visits s"
    and "renders (cancel_pending s) = renders s"
    and "cache_store (cancel_pending s) = cache_store s"
    and "length (gates (cancel_pending s)) = length (gates s)"
    and "patched (cancel_pending s) = patched s"
    and "cancelPendingBackground s \<noteq> None \<Longrightarrow> \<not> loading (cancel_pending s)"
    and "cancelPendingBackground s = None \<Longrightarrow> cancel_pending s = s"
proof -
  show "cancelPendingBackground s = None \<Longrightarrow> cancel_pending s = s"
    by (rule cancel_pending_None)
  show "visits (cancel_pending s) = visits s" "renders (cancel_pending s) = renders s"
    "cache_store (cancel_pending s) = cache_store s"
    "length (gates (cancel_pending s)) = length (gates s)"
    "patched (cancel_pending s) = patched s"
    by (auto simp: cancel_pending_def cancel_closure_def setLoaded_def Let_def split: option.splits)
  show "cancelPendingBackground s \<noteq> None \<Longrightarrow> \<not> loading (cancel_pending s)"
    using cancel_pending_Some[OF inv] by auto
  have "engine_inv (cancel_pending s) \<and> all_settled (cancel_pending s)"
  proof (cases "cancelPendingBackground s")
    case None
    then show ?thesis using inv inv_None_settled by (simp add: cancel_pending_None)
  next
    case (Some n)
    note cp = cancel_pending_Some[OF inv Some]
    have n: "Suc n = length (gates s)" using inv Some by (simp add: engine_inv_def)
    have others: "gate_settled (gates s ! k)" if "k < length (gates s)" "k \<noteq> n" for k
      using inv Some that by (auto simp: engine_inv_def)
    have g: "gate_settled (gates (cancel_pending s) ! k)" if "k < length (gates s)" for k
      using others[OF that] that by (cases "k = n") (auto simp: cp gate_settled_def)
    have d: "deferred_calls k (cancel_pending s) = deferred_calls k s" for k
      by (simp add: cp deferred_calls_def)
    have dn: "deferred_calls n s = []"
      using inv Some by (auto simp: engine_inv_def)
    have "engine_inv (cancel_pending s)"
      unfolding engine_inv_def
    proof (intro conjI allI impI)
      fix k assume "k < length (gates (cancel_pending s))"
      then show "gate_settled (gates (cancel_pending s) ! k)
          \<or> gate_waiting (gates (cancel_pending s) ! k) \<and> cancelPendingBackground (cancel_pending s) = Some k"
        using g by (simp add: cp)
    next
      fix k assume "cancelPendingBackground (cancel_pending s) = Some k"
      then show "Suc k = length (gates (cancel_pending s))" by (simp add: cp)
    next
      fix k assume "cancelPendingBackground (cancel_pending s) = Some k"
      then show "\<not> backgroundFired (gates (cancel_pending s) ! k)" by (simp add: cp)
    next
      fix k show "length (deferred_calls k (cancel_pending s)) \<le> 1"
        using inv by (simp add: d engine_inv_def)
    next
      fix k assume "deferred_calls k (cancel_pending s) \<noteq> []"
      then have "deferred_calls k s \<noteq> []" by (simp add: d)
      then have "k < length (gates s)" using inv by (simp add: engine_inv_def)
      then show "k < length (gates (cancel_pending s))" by (simp add: cp)
    next
      fix k assume "deferred_calls k (cancel_pending s) \<noteq> []"
      then have "deferred_calls k s \<noteq> []" by (simp add: d)
      then have "k < length (gates s)" using inv by (simp add: engine_inv_def)
      then show "backgroundFired (gates (cancel_pending s) ! k)"
        using g[of k] by (simp add: gate_settled_def)
    next
      show "distinct (map fst (cache_store (cancel_pending s)))"
        using inv by (simp add: cp engine_inv_def)
    qed
    moreover have "all_settled (cancel_pending s)"
      using g by (auto simp: all_settled_def in_set_conv_nth cp)
    ultimately show ?thesis by simp
  qed
  then show "engine_inv (cancel_pending s)" "all_settled (cancel_pending s)" by simp_all
qed

lemma inv_arm:
  assumes inv: "engine_inv s" and st: "all_settled s"
  shows "engine_inv (optimisticNavigate w now m opts (arm_gate h bg s))"
  unfolding engine_inv_def
proof (intro conjI allI impI)
  let ?s' = "optimisticNavigate w now m opts (arm_gate h bg s)"
  fix k assume k: "k < length (gates ?s')"
  show "gate_settled (gates ?s' ! k)
      \<or> gate_waiting (gates ?s' ! k) \<and> cancelPendingBackground ?s' = Some k"
  proof (cases "k < length (gates s)")
    case True
    then have "gate_settled (gates s ! k)" using st by (simp add: all_settled_def)
    then show ?thesis using True by (simp add: nth_append)
  next
    case False
    then have "k = length (gates s)" using k by simp
    then show ?thesis by (simp add: gate_waiting_def)
  qed
next
  let ?s' = "optimisticNavigate w now m opts (arm_gate h bg s)"
  fix k assume "cancelPendingBackground ?s' = Some k"
  then show "Suc k = length (gates ?s')" "\<not> backgroundFired (gates ?s' ! k)" by auto
next
  let ?s' = "optimisticNavigate w now m opts (arm_gate h bg s)"
  fix k show "length (deferred_calls k ?s') \<le> 1" using inv by (simp add: engine_inv_def)
  assume "deferred_calls k ?s' \<noteq> []"
  then have "k < length (gates s) \<and> backgroundFired (gates s ! k)"
    using inv by (simp add: engine_inv_def)
  then show "k < length (gates ?s')" "backgroundFired (gates ?s' ! k)"
    by (simp_all add: nth_append)
next
  show "distinct (map fst (cache_store (optimisticNavigate w now m opts (arm_gate h bg s))))"
    using inv by (simp add: engine_inv_def)
qed

lemma inv_visit_after_cancel:
  assumes inv: "engine_inv s" and st: "all_settled s"
  shows "engine_inv (visit_after_cancel w win now h opts s)"
proof (cases "decide w win now h opts s")
  case Skip
  then show ?thesis using inv by (simp add: visit_after_cancel_def inv_passthrough)
next
  case (SeedCache m)
  then show ?thesis using inv by (simp add: visit_after_cancel_def inv_passthrough)
next
  case (Optimistic m)
  then show ?thesis using inv_arm[OF inv st] by (simp add: visit_after_cancel_def)
qed

lemma inv_patchedVisit: "engine_inv s \<Longrightarrow> engine_inv (patchedVisit w win now h opts s)"
  unfolding patchedVisit_def
  by (rule inv_visit_after_cancel) (simp_all add: cancel_pending_facts)

lemma fireBackground_settled:
  assumes inv: "engine_inv s" and "cancelPendingBackground s \<noteq> Some n"
  shows "fireBackground n s = s"
proof (cases "n < length (gates s)")
  case True
  then have "gate_settled (gates s ! n)" using inv assms(2) by (auto simp: engine_inv_def)
  then show ?thesis using True by (simp add: fireBackground_def gate_settled_def)
next
  case False
  then show ?thesis by (simp add: fireBackground_def)
qed

lemma fireBackground_pending:
  assumes inv: "engine_inv s" and p: "cancelPendingBackground s = Some n"
  shows "fireBackground n s =
     s\<lparr>gates := (gates s)[n := (gates s ! n)\<lparr>backgroundFired := True, listening := False,
                                              timer_armed := False\<rparr>],
       cancelPendingBackground := None,
       visits := visits s @ [\<lparr>call_href = gate_href (gates s ! n),
                               call_options = Some (backgroundOptions (gates s ! n)),
                               call_issuer = Deferred n\<rparr>]\<rparr>"
  using assms by (auto simp: fireBackground_def engine_inv_def originalVisit_def Let_def)

lemma inv_fireBackground:
  assumes inv: "engine_inv s"
  shows "engine_inv (fireBackground n s)"
proof (cases "cancelPendingBackground s = Some n")
  case False
  then show ?thesis using inv by (simp add: fireBackground_settled)
next
  case True
  note fb = fireBackground_pending[OF inv True]
  have n: "Suc n = length (gates s)" using inv True by (simp add: engine_inv_def)
  have others: "gate_settled (gates s ! k)" if "k < length (gates s)" "k \<noteq> n" for k
    using inv True that by (auto simp: engine_inv_def)
  have g: "gate_settled (gates (fireBackground n s) ! k)" if "k < length (gates s)" for k
    using others[OF that] that by (cases "k = n") (auto simp: fb gate_settled_def)
  have dn: "deferred_calls n s = []"
    using inv True by (auto simp: engine_inv_def)
  have d: "deferred_calls k (fireBackground n s)
      = (if k = n then [\<lparr>call_href = gate_href (gates s ! n),
                          call_options = Some (backgroundOptions (gates s ! n)),
                          call_issuer = Deferred n\<rparr>] else deferred_calls k s)" for k
    using dn by (auto simp: fb deferred_calls_def)
  show ?thesis
    unfolding engine_inv_def
  proof (intro conjI allI impI)
    fix k assume "k < length (gates (fireBackground n s))"
    then show "gate_settled (gates (fireBackground n s) ! k)
        \<or> gate_waiting (gates (fireBackground n s) ! k)
          \<and> cancelPendingBackground (fireBackground n s) = Some k"
      using g by (simp add: fb)
  next
    fix k assume "cancelPendingBackground (fireBackground n s) = Some k"
    then show "Suc k = length (gates (fireBackground n s))"
      "\<not> backgroundFired (gates (fireBackground n s) ! k)" by (simp_all add: fb)
  next
    fix k show "length (deferred_calls k (fireBackground n s)) \<le> 1"
      using inv by (simp add: d engine_inv_def)
    assume ne: "deferred_calls k (fireBackground n s) \<noteq> []"
    have "k < length (gates s)"
    proof (cases "k = n")
      case True then show ?thesis using n by simp
    next
      case False
      then show ?thesis using ne inv by (simp add: d engine_inv_def)
    qed
    then show "k < length (gates (fireBackground n s))"
      "backgroundFired (gates (fireBackground n s) ! k)"
      using g[of k] by (simp_all add: fb gate_settled_def)
  next
    show "distinct (map fst (cache_store (fireBackground n s)))"
      using inv by (simp add: fb engine_inv_def)
  qed
qed

lemma pending_waiting:
  assumes inv: "engine_inv s" and p: "cancelPendingBackground s = Some n"
  shows "Suc n = length (gates s)" "n < length (gates s)" "gate_waiting (gates s ! n)"
proof -
  show n: "Suc n = length (gates s)" using inv p by (simp add: engine_inv_def)
  then show l: "n < length (gates s)" by simp
  have "\<not> backgroundFired (gates s ! n)" using inv p by (simp add: engine_inv_def)
  moreover have "gate_settled (gates s ! n)
      \<or> (gate_waiting (gates s ! n) \<and> cancelPendingBackground s = Some n)"
    using inv l unfolding engine_inv_def by blast
  ultimately show "gate_waiting (gates s ! n)" by (auto simp: gate_settled_def)
qed

lemma not_pending_settled:
  "engine_inv s \<Longrightarrow> k < length (gates s) \<Longrightarrow> cancelPendingBackground s \<noteq> Some k
   \<Longrightarrow> gate_settled (gates s ! k)"
  unfolding engine_inv_def by blast

lemma fold_not_listening:
  "\<forall>k \<in> set ks. k < length (gates s) \<longrightarrow> \<not> listening (gates s ! k) \<Longrightarrow>
   fold (\<lambda>n st. if n < length (gates st) \<and> listening (gates st ! n) then fireBackground n st
                 else st) ks s = s"
  by (induction ks) auto

lemma on_navigate_eq:
  assumes inv: "engine_inv s"
  shows "on_navigate s = (case cancelPendingBackground s of None \<Rightarrow> s | Some n \<Rightarrow> fireBackground n s)"
proof (cases "cancelPendingBackground s")
  case None
  have "\<not> listening (gates s ! k)" if "k < length (gates s)" for k
    using inv None that by (auto simp: engine_inv_def gate_settled_def)
  then show ?thesis
    using None by (simp add: on_navigate_def fold_not_listening)
next
  case (Some n)
  let ?f = "\<lambda>n st. if n < length (gates st) \<and> listening (gates st ! n) then fireBackground n st else st"
  have n: "Suc n = length (gates s)" using inv Some by (simp add: engine_inv_def)
  have ln: "listening (gates s ! n)"
    using pending_waiting(3)[OF inv Some] by (simp add: gate_waiting_def)
  have others: "\<not> listening (gates s ! k)" if "k < n" for k
    using not_pending_settled[OF inv, of k] Some that n by (auto simp: gate_settled_def)
  have "[0 ..< length (gates s)] = [0 ..< n] @ [n]"
    using n by (metis upt_Suc_append zero_le)
  then have "on_navigate s = ?f n (fold ?f [0 ..< n] s)"
    by (simp add: on_navigate_def)
  also have "fold ?f [0 ..< n] s = s"
    by (rule fold_not_listening) (use others in auto)
  finally show ?thesis
    using Some ln n by simp
qed

lemma on_timer_eq:
  assumes inv: "engine_inv s"
  shows "on_timer n s = (if cancelPendingBackground s = Some n then fireBackground n s else s)"
proof (cases "cancelPendingBackground s = Some n")
  case True
  then have "n < length (gates s)" "timer_armed (gates s ! n)"
    using pending_waiting[OF inv, of n] by (auto simp: gate_waiting_def)
  then show ?thesis using True by (simp add: on_timer_def)
next
  case False
  then show ?thesis using inv by (auto simp: on_timer_def fireBackground_settled)
qed
lemma same_control_refl [simp]: "same_control s s"
  by (simp add: same_control_def)

lemma same_control_trans: "same_control a b \<Longrightarrow> same_control b c \<Longrightarrow> same_control a c"
  by (simp add: same_control_def)

lemma same_control_upd [simp]:
  "same_control s (s\<lparr>preflight_data := d\<rparr>)"
  "same_control s (s\<lparr>cache_store := st\<rparr>)"
  "same_control s (s\<lparr>app_calls := c\<rparr>)"
  "same_control s (setLoaded s)"
  by (simp_all add: same_control_def setLoaded_def)

lemma run_onSuccess_frame:
  "store_ok s \<Longrightarrow> outcome_state (run_onSuccess w now cb page s) = Some s'
   \<Longrightarrow> same_control s s' \<and> store_ok s'"
proof (induction w now cb page s arbitrary: s' rule: run_onSuccess.induct)
  case (1 w now k page s)
  then show ?case by (auto simp: outcome_state_def same_control_def store_ok_def)
next
  case (2 w now m inner page s)
  define s1 where "s1 = (case props_preflight (page_props page) of
                  None \<Rightarrow> s
                | Some d \<Rightarrow> s\<lparr>preflight_data := preflight_update d (preflight_data s)\<rparr>)"
  have s1: "same_control s s1" "store_ok s1" "cache_store s1 = cache_store s"
    using "2.prems"(1) by (auto simp: s1_def store_ok_def split: option.splits)
  define r where "r = (if page_component page = route_component (route m)
               then map_option (\<lambda>st. s1\<lparr>cache_store := st\<rparr>)
                      (cache_set (cache_maxEntries (config w)) (match_url m) (entry_of page now)
                         (cache_store s1))
               else Some s1)"
  show ?case
  proof (cases r)
    case None
    then show ?thesis
      using "2.prems"(2) by (simp add: outcome_state_def s1_def[symmetric] r_def[symmetric])
  next
    case (Some s2)
    have s2: "same_control s s2 \<and> store_ok s2"
    proof (cases "page_component page = route_component (route m)")
      case True
      then obtain st where st: "cache_set (cache_maxEntries (config w)) (match_url m)
            (entry_of page now) (cache_store s1) = Some st" "s2 = s1\<lparr>cache_store := st\<rparr>"
        using Some by (auto simp: r_def)
      from cache_set_entries[OF _ st(1)] s1(2) have "distinct (map fst st)"
        by (simp add: store_ok_def)
      then show ?thesis
        using s1(1) st(2) by (simp add: same_control_def store_ok_def)
    next
      case False
      then show ?thesis using Some s1 by (simp add: r_def)
    qed
    show ?thesis
    proof (cases inner)
      case None
      then show ?thesis
        using "2.prems"(2) Some s2
        by (simp add: outcome_state_def s1_def[symmetric] r_def[symmetric])
    next
      case (Some cb)
      have "outcome_state (run_onSuccess w now cb page s2) = Some s'"
        using "2.prems"(2) \<open>r = Some s2\<close> Some
        by (simp add: s1_def[symmetric] r_def[symmetric])
      moreover have r2: "(if page_component page = route_component (route m)
               then map_option (\<lambda>st. s1\<lparr>cache_store := st\<rparr>)
                      (cache_set (cache_maxEntries (config w)) (match_url m) (entry_of page now)
                         (cache_store s1))
               else Some s1) = Some s2"
        using \<open>r = Some s2\<close> by (simp add: r_def)
      ultimately have "same_control s2 s' \<and> store_ok s'"
        using "2.IH"[OF s1_def r2 Some] s2 by blast
      then show ?thesis using s2 by (auto intro: same_control_trans)
    qed
  qed
next
  case (3 w now m inner page s)
  define s1 where "s1 = (case props_preflight (page_props page) of
                  None \<Rightarrow> s
                | Some d \<Rightarrow> if preflight_attached w
                            then s\<lparr>preflight_data := preflight_update d (preflight_data s)\<rparr>
                            else s)"
  have s1: "same_control s s1" "store_ok s1" "cache_store s1 = cache_store s"
    using "3.prems"(1) by (auto simp: s1_def store_ok_def split: option.splits)
  show ?case
  proof (cases "page_component page \<noteq> route_component (route m)")
    case True
    define s2 where "s2 = setLoaded (s1\<lparr>cache_store := cache_remove (match_url m) (cache_store s1)\<rparr>)"
    have s2: "same_control s s2" "store_ok s2"
      using s1 by (auto simp: s2_def same_control_def setLoaded_def store_ok_def cache_remove_def
          store_delete_distinct)
    show ?thesis
    proof (cases inner)
      case None
      then show ?thesis
        using "3.prems"(2) True s2
        by (simp add: outcome_state_def s1_def[symmetric] s2_def[symmetric])
    next
      case (Some cb)
      have "outcome_state (run_onSuccess w now cb page s2) = Some s'"
        using "3.prems"(2) True Some by (simp add: s1_def[symmetric] s2_def[symmetric])
      then have "same_control s2 s' \<and> store_ok s'"
        using "3.IH"(1)[OF s1_def True s2_def Some] s2 by blast
      then show ?thesis using s2 by (auto intro: same_control_trans)
    qed
  next
    case False
    show ?thesis
    proof (cases "cache_set (cache_maxEntries (config w)) (match_url m) (entry_of page now)
                   (cache_store s1)")
      case None
      then show ?thesis
        using "3.prems"(2) False by (simp add: outcome_state_def s1_def[symmetric])
    next
      case (Some st)
      from cache_set_entries[OF _ Some] s1(2) have dst: "distinct (map fst st)"
        by (simp add: store_ok_def)
      define pats where "pats = (case props_invalidate (page_props page) of
                                        None \<Rightarrow> [] | Some pats \<Rightarrow> pats)"
      show ?thesis
      proof (cases "invalidate_all pats st")
        case (Inl a)
        obtain e st' where a: "a = (e, st')" by (cases a)
        from invalidate_all_entries[OF dst, of pats st' e] Inl a
        have "distinct (map fst st')" by auto
        then show ?thesis
          using "3.prems"(2) False Some Inl a s1(1)
          by (auto simp: outcome_state_def s1_def[symmetric] pats_def[symmetric] same_control_def
              store_ok_def)
      next
        case (Inr st')
        from invalidate_all_entries[OF dst, of pats st'] Inr
        have dst': "distinct (map fst st')" by auto
        define s2 where "s2 = setLoaded (s1\<lparr>cache_store := st'\<rparr>)"
        have s2: "same_control s s2" "store_ok s2"
          using s1 dst' by (auto simp: s2_def same_control_def setLoaded_def store_ok_def)
        show ?thesis
        proof (cases inner)
          case None
          then show ?thesis
            using "3.prems"(2) False Some Inr s2
            by (simp add: outcome_state_def s1_def[symmetric] pats_def[symmetric]
                s2_def[symmetric])
        next
          case (Some cb)
          have "outcome_state (run_onSuccess w now cb page s2) = Some s'"
            using "3.prems"(2) False \<open>cache_set (cache_maxEntries (config w)) (match_url m)
               (entry_of page now) (cache_store s1) = Some st\<close> Inr Some
            by (simp add: s1_def[symmetric] pats_def[symmetric] s2_def[symmetric])
          then have "same_control s2 s' \<and> store_ok s'"
            using "3.IH"(2)[OF s1_def False \<open>cache_set (cache_maxEntries (config w)) (match_url m)
               (entry_of page now) (cache_store s1) = Some st\<close> Inr[unfolded pats_def] s2_def Some]
              s2 by blast
          then show ?thesis using s2 by (auto intro: same_control_trans)
        qed
      qed
    qed
  qed
qed

lemma run_onError_frame: "same_control s (run_onError cb errors s) \<and> cache_store (run_onError cb errors s) = cache_store s"
  by (induction cb errors s rule: run_onError.induct)
     (auto simp: same_control_def setLoaded_def split: option.splits)

lemma inv_same_control:
  assumes "engine_inv s" "same_control s s'" "store_ok s'"
  shows "engine_inv s'"
  using assms by (simp add: engine_inv_def same_control_def store_ok_def deferred_calls_def)

lemma inv_step:
  assumes inv: "engine_inv s" and st: "outcome_state (step w e s) = Some s'"
  shows "engine_inv s'"
proof (cases e)
  case (Visit win now h opts)
  then show ?thesis
    using inv st by (auto simp: step_def outcome_state_def inv_patchedVisit inv_passthrough)
next
  case NavigateEvent
  then show ?thesis
    using inv st
    by (auto simp: step_def outcome_state_def on_navigate_eq inv_fireBackground split: option.splits)
next
  case (TimerFires n)
  then show ?thesis
    using inv st by (auto simp: step_def outcome_state_def on_timer_eq inv_fireBackground)
next
  case (Success cb page now)
  then have "outcome_state (run_onSuccess w now cb page s) = Some s'"
    using st by (simp add: step_def)
  from run_onSuccess_frame[OF _ this] inv have "same_control s s' \<and> store_ok s'"
    by (simp add: store_ok_def engine_inv_def)
  then show ?thesis using inv_same_control[OF inv] by blast
next
  case (Failure cb errors)
  then have "s' = run_onError cb errors s" using st by (simp add: step_def outcome_state_def)
  moreover have "store_ok (run_onError cb errors s)"
    using run_onError_frame[of s cb errors] inv by (simp add: store_ok_def engine_inv_def)
  ultimately show ?thesis
    using run_onError_frame[of s cb errors] inv_same_control[OF inv] by blast
next
  case RemovePatch
  have "engine_inv (s\<lparr>patched := False\<rparr>)"
    using inv by (simp add: engine_inv_def deferred_calls_def)
  then show ?thesis
    using RemovePatch st by (auto simp: step_def outcome_state_def patch_remove_def cancel_pending_facts)
next
  case ApplyPatch
  then show ?thesis
    using inv st by (auto simp: step_def outcome_state_def patch_apply_def engine_inv_def deferred_calls_def)
qed

lemma run_Cons:
  "run w (e # es) s = (case outcome_state (step w e s) of None \<Rightarrow> None | Some s' \<Rightarrow> run w es s')"
  by (simp add: outcome_state_def split: outcome.splits)

lemma inv_run:
  "engine_inv s \<Longrightarrow> run w es s = Some s' \<Longrightarrow> engine_inv s'"
proof (induction es arbitrary: s)
  case Nil
  then show ?case by simp
next
  case (Cons e es)
  then show ?case
    by (auto simp: run_Cons simp del: run.simps split: option.splits dest: inv_step)
qed

lemma inv_reachable: "run w es (applyPatch pd) = Some s \<Longrightarrow> engine_inv s"
  using inv_run[OF inv_applyPatch] by blast
lemma fired_not_pending: "engine_inv s \<Longrightarrow> fired n s \<Longrightarrow> cancelPendingBackground s \<noteq> Some n"
  by (auto simp: engine_inv_def fired_def)

lemma cancel_pending_fired:
  assumes inv: "engine_inv s" and f: "fired n s"
  shows "fired n (cancel_pending s)"
proof (cases "cancelPendingBackground s")
  case None
  then show ?thesis using f by (simp add: cancel_pending_None)
next
  case (Some k)
  then have "k \<noteq> n" using fired_not_pending[OF inv f] by auto
  then show ?thesis
    using f by (simp add: cancel_pending_Some[OF inv Some] fired_def)
qed

lemma cancel_pending_deferred: "deferred_calls n (cancel_pending s) = deferred_calls n s"
  by (auto simp: cancel_pending_def cancel_closure_def setLoaded_def Let_def deferred_calls_def
      split: option.splits)

lemma visit_after_cancel_fired:
  assumes f: "fired n s"
  shows "fired n (visit_after_cancel w win now h opts s)
     \<and> deferred_calls n (visit_after_cancel w win now h opts s) = deferred_calls n s"
  using f
  by (cases "decide w win now h opts s")
     (auto simp: visit_after_cancel_def fired_def nth_append originalVisit_deferred)

lemma fireBackground_fired:
  assumes inv: "engine_inv s" and f: "fired n s"
  shows "fired n (fireBackground k s) \<and> deferred_calls n (fireBackground k s) = deferred_calls n s"
proof (cases "cancelPendingBackground s = Some k")
  case False
  then show ?thesis using f by (simp add: fireBackground_settled[OF inv])
next
  case True
  then have "k \<noteq> n" using fired_not_pending[OF inv f] by auto
  then show ?thesis
    using f by (simp add: fireBackground_pending[OF inv True] fired_def deferred_calls_def)
qed

lemma step_fired:
  assumes inv: "engine_inv s" and f: "fired n s" and st: "outcome_state (step w e s) = Some s'"
  shows "fired n s' \<and> deferred_calls n s' = deferred_calls n s"
proof (cases e)
  case (Visit win now h opts)
  show ?thesis
  proof (cases "patched s")
    case True
    then have "s' = visit_after_cancel w win now h opts (cancel_pending s)"
      using Visit st by (simp add: step_def outcome_state_def patchedVisit_def)
    then show ?thesis
      using visit_after_cancel_fired[OF cancel_pending_fired[OF inv f], of w win now h opts]
      by (simp add: cancel_pending_deferred)
  next
    case False
    then show ?thesis
      using Visit st f by (auto simp: step_def outcome_state_def fired_def originalVisit_deferred)
  qed
next
  case NavigateEvent
  then show ?thesis
    using st f fireBackground_fired[OF inv f]
    by (auto simp: step_def outcome_state_def on_navigate_eq[OF inv] split: option.splits)
next
  case (TimerFires k)
  then show ?thesis
    using st f fireBackground_fired[OF inv f]
    by (auto simp: step_def outcome_state_def on_timer_eq[OF inv])
next
  case (Success cb page now)
  then have "outcome_state (run_onSuccess w now cb page s) = Some s'"
    using st by (simp add: step_def)
  from run_onSuccess_frame[OF _ this] inv have "same_control s s'"
    by (simp add: store_ok_def engine_inv_def)
  then show ?thesis using f by (simp add: same_control_def fired_def deferred_calls_def)
next
  case (Failure cb errors)
  then have "s' = run_onError cb errors s" using st by (simp add: step_def outcome_state_def)
  then show ?thesis
    using run_onError_frame[of s cb errors] f
    by (simp add: same_control_def fired_def deferred_calls_def)
next
  case RemovePatch
  have i: "engine_inv (s\<lparr>patched := False\<rparr>)"
    using inv by (simp add: engine_inv_def deferred_calls_def)
  have "fired n (s\<lparr>patched := False\<rparr>)" using f by (simp add: fired_def)
  from cancel_pending_fired[OF i this] show ?thesis
    using RemovePatch st
    by (auto simp: step_def outcome_state_def patch_remove_def cancel_pending_deferred)
       (simp add: deferred_calls_def)
next
  case ApplyPatch
  then show ?thesis
    using st f by (auto simp: step_def outcome_state_def patch_apply_def fired_def deferred_calls_def)
qed

lemma run_fired:
  "engine_inv s \<Longrightarrow> fired n s \<Longrightarrow> run w es s = Some s'
   \<Longrightarrow> fired n s' \<and> deferred_calls n s' = deferred_calls n s"
proof (induction es arbitrary: s)
  case Nil
  then show ?case by simp
next
  case (Cons e es)
  from Cons.prems(3) obtain s1 where s1: "outcome_state (step w e s) = Some s1" "run w es s1 = Some s'"
    by (auto simp: run_Cons simp del: run.simps split: option.splits)
  from step_fired[OF Cons.prems(1,2) s1(1)] inv_step[OF Cons.prems(1) s1(1)]
  have "fired n s1" "deferred_calls n s1 = deferred_calls n s" "engine_inv s1" by auto
  with Cons.IH[OF _ _ s1(2)] show ?case by simp
qed


lemma pending_count:
  assumes inv: "engine_inv s"
  shows "length (filter (\<lambda>g. \<not> backgroundFired g) (gates s)) \<le> 1"
proof (cases "cancelPendingBackground s")
  case None
  then have "\<forall>g \<in> set (gates s). backgroundFired g"
    using inv_None_settled[OF inv] by (auto simp: all_settled_def gate_settled_def)
  then have "filter (\<lambda>g. \<not> backgroundFired g) (gates s) = []"
    by (simp add: filter_empty_conv)
  then show ?thesis by simp
next
  case (Some n)
  have n: "Suc n = length (gates s)" using pending_waiting[OF inv Some] by simp
  then have g: "gates s = take n (gates s) @ [gates s ! n]"
    by (metis lessI take_Suc_conv_app_nth take_all order_refl)
  have "backgroundFired (take n (gates s) ! k)" if "k < n" for k
    using not_pending_settled[OF inv, of k] that n Some by (auto simp: gate_settled_def)
  then have "\<forall>g \<in> set (take n (gates s)). backgroundFired g"
    using n by (auto simp: in_set_conv_nth)
  then have "filter (\<lambda>g. \<not> backgroundFired g) (take n (gates s)) = []"
    by (simp add: filter_empty_conv)
  then have "length (filter (\<lambda>g. \<not> backgroundFired g) (take n (gates s) @ [gates s ! n])) \<le> 1"
    by simp
  then show ?thesis using g by simp
qed

lemma cancel_pending_idem: "cancel_pending (cancel_pending s) = cancel_pending s"
proof -
  have "cancelPendingBackground (cancel_pending s) = None"
    by (auto simp: cancel_pending_def cancel_closure_def Let_def split: option.splits)
  then show ?thesis by (rule cancel_pending_None)
qed

lemma cancelled_never_fires:
  assumes inv: "engine_inv s" and p: "cancelPendingBackground s = Some n"
    and r: "run w es' (patchedVisit w win now h opts s) = Some s''"
  shows "\<forall>c \<in> set (visits s''). call_issuer c \<noteq> Deferred n"
proof -
  have n: "n < length (gates s)" "gate_waiting (gates s ! n)"
    using pending_waiting[OF inv p] by simp_all
  have d0: "deferred_calls n s = []"
    using inv n by (auto simp: engine_inv_def gate_waiting_def)
  have "fired n (cancel_pending s)"
    using n by (simp add: cancel_pending_Some[OF inv p] fired_def)
  from visit_after_cancel_fired[OF this, of w win now h opts]
  have "fired n (patchedVisit w win now h opts s)"
    "deferred_calls n (patchedVisit w win now h opts s) = []"
    by (simp_all add: patchedVisit_def cancel_pending_deferred d0)
  from run_fired[OF inv_patchedVisit[OF inv] this(1) r] this(2)
  have "deferred_calls n s'' = []" by simp
  then show ?thesis
    by (auto simp: deferred_calls_def filter_empty_conv)
qed

text \<open>
  Claim C3. In every state that the engine can reach, \<^verbatim>\<open>patchedVisit\<close> is the cancellation
  followed by the rest of the function, so the cancellation precedes every skip test;
  cancelling twice is cancelling once; at most one gate has not fired, and it is the one
  whose cancel closure \<^verbatim>\<open>cancelPendingBackground\<close> holds. If a background request is
  pending when a navigation enters, the cancellation sets its latch, removes its listener
  and its timer, clears the loading flag and issues no request; the loading flag is still
  clear when the call returns unless the new navigation is itself optimistic; and after the
  call no sequence of events whatever (timers, \<^verbatim>\<open>navigate\<close> events, visits, callbacks)
  makes the cancelled gate issue its request.
\<close>

theorem navigation_cancels_pending_background:
  assumes reach: "run w es (applyPatch pd) = Some s"
  shows "patchedVisit w win now h opts s = visit_after_cancel w win now h opts (cancel_pending s)
    \<and> cancel_pending (cancel_pending s) = cancel_pending s
    \<and> length (filter (\<lambda>g. \<not> backgroundFired g) (gates s)) \<le> 1
    \<and> (\<forall>n < length (gates s). \<not> backgroundFired (gates s ! n) \<longrightarrow> cancelPendingBackground s = Some n)
    \<and> (\<forall>n. cancelPendingBackground s = Some n \<longrightarrow>
          n < length (gates s) \<and> \<not> backgroundFired (gates s ! n)
          \<and> backgroundFired (gates (cancel_pending s) ! n)
          \<and> \<not> listening (gates (cancel_pending s) ! n)
          \<and> \<not> timer_armed (gates (cancel_pending s) ! n)
          \<and> \<not> loading (cancel_pending s)
          \<and> visits (cancel_pending s) = visits s
          \<and> ((\<forall>m. decide w win now h opts (cancel_pending s) \<noteq> Optimistic m)
                \<longrightarrow> \<not> loading (patchedVisit w win now h opts s))
          \<and> (\<forall>es' s''. run w es' (patchedVisit w win now h opts s) = Some s''
                \<longrightarrow> (\<forall>c \<in> set (visits s''). call_issuer c \<noteq> Deferred n)))"
proof -
  have inv: "engine_inv s" using reach by (rule inv_reachable)
  have a: "patchedVisit w win now h opts s = visit_after_cancel w win now h opts (cancel_pending s)"
    by (simp add: patchedVisit_def)
  have c: "length (filter (\<lambda>g. \<not> backgroundFired g) (gates s)) \<le> 1"
    using inv by (rule pending_count)
  have d: "\<forall>n < length (gates s). \<not> backgroundFired (gates s ! n) \<longrightarrow> cancelPendingBackground s = Some n"
    using inv by (auto simp: engine_inv_def gate_settled_def)
  have e: "n < length (gates s) \<and> \<not> backgroundFired (gates s ! n)
          \<and> backgroundFired (gates (cancel_pending s) ! n)
          \<and> \<not> listening (gates (cancel_pending s) ! n)
          \<and> \<not> timer_armed (gates (cancel_pending s) ! n)
          \<and> \<not> loading (cancel_pending s)
          \<and> visits (cancel_pending s) = visits s
          \<and> ((\<forall>m. decide w win now h opts (cancel_pending s) \<noteq> Optimistic m)
                \<longrightarrow> \<not> loading (patchedVisit w win now h opts s))
          \<and> (\<forall>es' s''. run w es' (patchedVisit w win now h opts s) = Some s''
                \<longrightarrow> (\<forall>c \<in> set (visits s''). call_issuer c \<noteq> Deferred n))"
    if p: "cancelPendingBackground s = Some n" for n
  proof -
    have n: "n < length (gates s)" "gate_waiting (gates s ! n)"
      using pending_waiting[OF inv p] by simp_all
    note cp = cancel_pending_Some[OF inv p]
    have l: "\<not> loading (cancel_pending s)" by (simp add: cp)
    have "\<not> loading (patchedVisit w win now h opts s)"
      if "\<forall>m. decide w win now h opts (cancel_pending s) \<noteq> Optimistic m"
      using that l
      by (cases "decide w win now h opts (cancel_pending s)")
         (auto simp: patchedVisit_def visit_after_cancel_def)
    then show ?thesis
      using n l cancelled_never_fires[OF inv p]
      by (auto simp: cp gate_waiting_def)
  qed
  show ?thesis
    using a cancel_pending_idem c d e by blast
qed



lemma invalidateByPattern_removes:
  "pattern_compiles p \<Longrightarrow>
   invalidateByPattern p st = Inr (filter (\<lambda>(k, _). \<not> pattern_removes p k) st)"
  using invalidate_filter[of p _ st]
  by (auto simp: pattern_compiles_def pattern_removes_def split: sum.splits)

lemma invalidateByPattern_throws:
  "\<not> pattern_compiles p \<Longrightarrow> \<exists>e. invalidateByPattern p st = Inl e"
  by (auto simp: pattern_compiles_def invalidateByPattern_def split: sum.splits)

lemma invalidate_all_Inr:
  "\<forall>p \<in> set pats. pattern_compiles p \<Longrightarrow>
   invalidate_all pats st = Inr (filter (\<lambda>(k, _). \<not> (\<exists>p \<in> set pats. pattern_removes p k)) st)"
proof (induction pats arbitrary: st)
  case Nil
  then show ?case by simp
next
  case (Cons p pats)
  have "filter (\<lambda>(k, _). \<not> (\<exists>q \<in> set pats. pattern_removes q k))
          (filter (\<lambda>(k, _). \<not> pattern_removes p k) st)
      = filter (\<lambda>(k, _). \<not> (\<exists>q \<in> set (p # pats). pattern_removes q k)) st"
    by (induction st) auto
  then show ?case
    using Cons by (simp add: invalidateByPattern_removes)
qed

lemma invalidate_all_Inl:
  "\<forall>q \<in> set ps. pattern_compiles q \<Longrightarrow> \<not> pattern_compiles p \<Longrightarrow>
   \<exists>e. invalidate_all (ps @ p # rest) st
     = Inl (e, filter (\<lambda>(k, _). \<not> (\<exists>q \<in> set ps. pattern_removes q k)) st)"
proof (induction ps arbitrary: st)
  case Nil
  from invalidateByPattern_throws[OF Nil(2), of st] show ?case by auto
next
  case (Cons q ps)
  have f: "filter (\<lambda>(k, _). \<not> (\<exists>q \<in> set ps. pattern_removes q k))
          (filter (\<lambda>(k, _). \<not> pattern_removes q k) st)
      = filter (\<lambda>(k, _). \<not> (\<exists>x \<in> set (q # ps). pattern_removes x k)) st"
    by (induction st) auto
  from Cons.prems have q: "pattern_compiles q" and ps: "\<forall>q \<in> set ps. pattern_compiles q"
    by simp_all
  from Cons.IH[OF ps Cons.prems(2), of "filter (\<lambda>(k, _). \<not> pattern_removes q k) st"]
  show ?case
    unfolding f by (simp add: invalidateByPattern_removes[OF q])
qed

lemma store_get_filter:
  "store_get (filter (\<lambda>(k, _). P k) st) u = (if P u then store_get st u else None)"
  by (induction st) (auto simp: store_get_def)

lemma background_success_written:
  assumes c: "page_component page = route_component (route m)"
    and st: "cache_set (cache_maxEntries (config w)) (match_url m) (entry_of page now) (cache_store s)
        = Some st"
  shows "run_onSuccess w now (BackgroundOnSuccess m (map_option AppOnSuccess k)) page s
      = (case invalidate_all (directives page) st of
           Inl (e, st') \<Rightarrow> Threw e
             ((case props_preflight (page_props page) of
                  None \<Rightarrow> s
                | Some d \<Rightarrow> if preflight_attached w
                            then s\<lparr>preflight_data := preflight_update d (preflight_data s)\<rparr>
                            else s)\<lparr>cache_store := st'\<rparr>)
         | Inr st' \<Rightarrow> Returned
             ((case props_preflight (page_props page) of
                  None \<Rightarrow> s
                | Some d \<Rightarrow> if preflight_attached w
                            then s\<lparr>preflight_data := preflight_update d (preflight_data s)\<rparr>
                            else s)
              \<lparr>cache_store := st', loading := False,
                app_calls := app_calls s @ (case k of None \<Rightarrow> [] | Some j \<Rightarrow> [(j, ArgPage page)])\<rparr>))"
proof -
  define s1 where "s1 = (case props_preflight (page_props page) of
                  None \<Rightarrow> s
                | Some d \<Rightarrow> if preflight_attached w
                            then s\<lparr>preflight_data := preflight_update d (preflight_data s)\<rparr>
                            else s)"
  have s1: "cache_store s1 = cache_store s" "app_calls s1 = app_calls s"
    by (auto simp: s1_def split: option.splits)
  show ?thesis
    using c st
    by (cases k; cases "invalidate_all (directives page) st")
       (auto simp: s1_def[symmetric] s1 directives_def setLoaded_def split: prod.splits)
qed

text \<open>
  Claim C4, as the code has it. When the response of the background request has another
  component than the predicted one, the entry of the predicted URL (\<^verbatim>\<open>match.url\<close>) is
  removed, every other key keeps its entry, the loading flag is cleared and the callback of
  the caller is run. When the component is the predicted one, the only entry that the
  callback can add is the response under the key \<^verbatim>\<open>match.url\<close>, the entry recording the
  URL that the server reported in its \<open>url\<close> field. The callback always writes it: the store
  afterwards is the store that \<^verbatim>\<open>cache.set(match.url, entry)\<close> gives, which holds the entry
  when \<open>maxEntries\<close> is at least one, less the keys that the invalidation patterns of the
  response match; when a pattern does not compile the callback throws, and the store is
  then the written one less the keys that the patterns before it match. So with room for
  one entry and patterns that compile, the entry is under \<^verbatim>\<open>match.url\<close> afterwards unless
  one of the patterns of the response matches \<^verbatim>\<open>match.url\<close> itself.
\<close>

theorem background_success_cache_key:
  "(page_component page \<noteq> route_component (route m) \<longrightarrow>
      (\<exists>s'. run_onSuccess w now (BackgroundOnSuccess m (map_option AppOnSuccess k)) page s = Returned s'
         \<and> cache_store s' = cache_remove (match_url m) (cache_store s)
         \<and> store_get (cache_store s') (match_url m) = None
         \<and> (\<forall>u. u \<noteq> match_url m \<longrightarrow> store_get (cache_store s') u = store_get (cache_store s) u)
         \<and> \<not> loading s'
         \<and> app_calls s' = app_calls s @ (case k of None \<Rightarrow> [] | Some j \<Rightarrow> [(j, ArgPage page)])))
   \<and> (page_component page = route_component (route m) \<and> distinct (map fst (cache_store s))
        \<and> 0 \<le> cache_maxEntries (config w) \<longrightarrow>
      (\<exists>s'. (run_onSuccess w now (BackgroundOnSuccess m (map_option AppOnSuccess k)) page s = Returned s'
              \<or> (\<exists>e. run_onSuccess w now (BackgroundOnSuccess m (map_option AppOnSuccess k)) page s
                       = Threw e s'))
         \<and> (\<forall>u e. store_get (cache_store s') u = Some e \<longrightarrow>
               (u = match_url m \<and> e = \<lparr>props = page_props page, timestamp = now,
                                         url = page_url page, component = page_component page\<rparr>)
               \<or> store_get (cache_store s) u = Some e)))
   \<and> (page_component page = route_component (route m) \<and> distinct (map fst (cache_store s))
        \<and> 0 \<le> cache_maxEntries (config w) \<longrightarrow>
      (\<exists>st. cache_set (cache_maxEntries (config w)) (match_url m)
                \<lparr>props = page_props page, timestamp = now, url = page_url page,
                   component = page_component page\<rparr> (cache_store s) = Some st
         \<and> (1 \<le> cache_maxEntries (config w) \<longrightarrow>
               store_get st (match_url m)
                 = Some \<lparr>props = page_props page, timestamp = now, url = page_url page,
                          component = page_component page\<rparr>)
         \<and> ((\<forall>p \<in> set (directives page). pattern_compiles p) \<longrightarrow>
               (\<exists>s'. run_onSuccess w now (BackgroundOnSuccess m (map_option AppOnSuccess k)) page s
                        = Returned s'
                  \<and> cache_store s'
                      = filter (\<lambda>(key, _). \<not> (\<exists>p \<in> set (directives page). pattern_removes p key)) st
                  \<and> \<not> loading s'
                  \<and> app_calls s'
                      = app_calls s @ (case k of None \<Rightarrow> [] | Some j \<Rightarrow> [(j, ArgPage page)])))
         \<and> (\<forall>ps p rest. directives page = ps @ p # rest
                \<and> (\<forall>q \<in> set ps. pattern_compiles q) \<and> \<not> pattern_compiles p \<longrightarrow>
               (\<exists>e s'. run_onSuccess w now (BackgroundOnSuccess m (map_option AppOnSuccess k)) page s
                        = Threw e s'
                  \<and> cache_store s'
                      = filter (\<lambda>(key, _). \<not> (\<exists>q \<in> set ps. pattern_removes q key)) st))))
   \<and> (page_component page = route_component (route m) \<and> distinct (map fst (cache_store s))
        \<and> 1 \<le> cache_maxEntries (config w) \<and> (\<forall>p \<in> set (directives page). pattern_compiles p) \<longrightarrow>
      (\<exists>s'. run_onSuccess w now (BackgroundOnSuccess m (map_option AppOnSuccess k)) page s = Returned s'
         \<and> store_get (cache_store s') (match_url m)
             = (if \<exists>p \<in> set (directives page). pattern_removes p (match_url m) then None
                else Some \<lparr>props = page_props page, timestamp = now, url = page_url page,
                            component = page_component page\<rparr>)))"
proof -
  let ?cb = "BackgroundOnSuccess m (map_option AppOnSuccess k)"
  let ?e = "\<lparr>props = page_props page, timestamp = now, url = page_url page,
            component = page_component page\<rparr>"
  let ?mx = "cache_maxEntries (config w)"
  define s1 where "s1 = (case props_preflight (page_props page) of
                  None \<Rightarrow> s
                | Some d \<Rightarrow> if preflight_attached w
                            then s\<lparr>preflight_data := preflight_update d (preflight_data s)\<rparr>
                            else s)"
  have s1: "cache_store s1 = cache_store s" "app_calls s1 = app_calls s"
    by (auto simp: s1_def split: option.splits)
  have e: "entry_of page now = ?e" by (simp add: entry_of_def)
  have 1: "\<exists>s'. run_onSuccess w now ?cb page s = Returned s'
         \<and> cache_store s' = cache_remove (match_url m) (cache_store s)
         \<and> store_get (cache_store s') (match_url m) = None
         \<and> (\<forall>u. u \<noteq> match_url m \<longrightarrow> store_get (cache_store s') u = store_get (cache_store s) u)
         \<and> \<not> loading s'
         \<and> app_calls s' = app_calls s @ (case k of None \<Rightarrow> [] | Some j \<Rightarrow> [(j, ArgPage page)])"
    if mm: "page_component page \<noteq> route_component (route m)"
  proof -
    define s2 where "s2 = setLoaded (s1\<lparr>cache_store := cache_remove (match_url m) (cache_store s1)\<rparr>)"
    have r: "run_onSuccess w now ?cb page s
        = (case k of None \<Rightarrow> Returned s2
           | Some j \<Rightarrow> Returned (s2\<lparr>app_calls := app_calls s2 @ [(j, ArgPage page)]\<rparr>))"
      using mm by (cases k) (simp_all add: s1_def[symmetric] s2_def[symmetric])
    have s2: "cache_store s2 = cache_remove (match_url m) (cache_store s)" "\<not> loading s2"
      "app_calls s2 = app_calls s"
      by (simp_all add: s2_def setLoaded_def s1)
    show ?thesis
      unfolding r using s2 by (cases k) (auto simp: store_get_remove)
  qed
  have 2: "\<exists>s'. (run_onSuccess w now ?cb page s = Returned s'
              \<or> (\<exists>e. run_onSuccess w now ?cb page s = Threw e s'))
         \<and> (\<forall>u e. store_get (cache_store s') u = Some e \<longrightarrow>
               (u = match_url m \<and> e = ?e) \<or> store_get (cache_store s) u = Some e)"
    if a: "page_component page = route_component (route m) \<and> distinct (map fst (cache_store s))
        \<and> 0 \<le> ?mx"
  proof -
    from a have d: "distinct (map fst (cache_store s))"
      and c: "page_component page = route_component (route m)"
      by simp_all
    have look: "(u = match_url m \<and> e = ?e) \<or> store_get (cache_store s) u = Some e"
      if "distinct (map fst (cache_store s'))"
        "set (cache_store s') \<subseteq> insert (match_url m, entry_of page now) (set (cache_store s))"
        "store_get (cache_store s') u = Some e" for s' u e
    proof -
      have "(u, e) \<in> set (cache_store s')" using that(1,3) by (simp add: store_get_distinct)
      then have "(u, e) = (match_url m, entry_of page now) \<or> (u, e) \<in> set (cache_store s)"
        using that(2) by auto
      then show ?thesis using d by (auto simp: store_get_distinct entry_of_def)
    qed
    from background_success_entries[OF d c, where w=w and now=now and k=k]
    show ?thesis
      using a look by (cases "run_onSuccess w now ?cb page s") auto
  qed
  have 3: "\<exists>st. cache_set ?mx (match_url m) ?e (cache_store s) = Some st
         \<and> (1 \<le> ?mx \<longrightarrow> store_get st (match_url m) = Some ?e)
         \<and> ((\<forall>p \<in> set (directives page). pattern_compiles p) \<longrightarrow>
               (\<exists>s'. run_onSuccess w now ?cb page s = Returned s'
                  \<and> cache_store s'
                      = filter (\<lambda>(key, _). \<not> (\<exists>p \<in> set (directives page). pattern_removes p key)) st
                  \<and> \<not> loading s'
                  \<and> app_calls s'
                      = app_calls s @ (case k of None \<Rightarrow> [] | Some j \<Rightarrow> [(j, ArgPage page)])))
         \<and> (\<forall>ps p rest. directives page = ps @ p # rest
                \<and> (\<forall>q \<in> set ps. pattern_compiles q) \<and> \<not> pattern_compiles p \<longrightarrow>
               (\<exists>e s'. run_onSuccess w now ?cb page s = Threw e s'
                  \<and> cache_store s'
                      = filter (\<lambda>(key, _). \<not> (\<exists>q \<in> set ps. pattern_removes q key)) st))"
    if a: "page_component page = route_component (route m) \<and> distinct (map fst (cache_store s))
        \<and> 0 \<le> ?mx"
  proof -
    from a have d: "distinct (map fst (cache_store s))"
      and c: "page_component page = route_component (route m)" and mx: "0 \<le> ?mx"
      by simp_all
    from cache_set_drop[OF mx d, of "match_url m" ?e]
    obtain st where st: "cache_set ?mx (match_url m) ?e (cache_store s) = Some st"
      by blast
    note r = background_success_written[OF c st[folded e], where k=k]
    have w: "store_get st (match_url m) = Some ?e" if "1 \<le> ?mx"
      using cache_set_lookup[OF that d, of "match_url m" ?e] st by simp
    have ok: "\<exists>s'. run_onSuccess w now ?cb page s = Returned s'
                  \<and> cache_store s'
                      = filter (\<lambda>(key, _). \<not> (\<exists>p \<in> set (directives page). pattern_removes p key)) st
                  \<and> \<not> loading s'
                  \<and> app_calls s'
                      = app_calls s @ (case k of None \<Rightarrow> [] | Some j \<Rightarrow> [(j, ArgPage page)])"
      if "\<forall>p \<in> set (directives page). pattern_compiles p"
      unfolding r invalidate_all_Inr[OF that] by simp
    have bad: "\<exists>e s'. run_onSuccess w now ?cb page s = Threw e s'
                  \<and> cache_store s'
                      = filter (\<lambda>(key, _). \<not> (\<exists>q \<in> set ps. pattern_removes q key)) st"
      if "directives page = ps @ p # rest" "\<forall>q \<in> set ps. pattern_compiles q"
        "\<not> pattern_compiles p" for ps p rest
    proof -
      have "\<exists>err. invalidate_all (directives page) st
           = Inl (err, filter (\<lambda>(key, _). \<not> (\<exists>q \<in> set ps. pattern_removes q key)) st)"
        unfolding that(1) by (rule invalidate_all_Inl[OF that(2,3)])
      then obtain err where
        "invalidate_all (directives page) st
           = Inl (err, filter (\<lambda>(key, _). \<not> (\<exists>q \<in> set ps. pattern_removes q key)) st)" ..
      then show ?thesis
        unfolding r by simp
    qed
    show ?thesis
      using st w ok bad by (intro exI[of _ st] conjI impI allI) blast+
  qed
  have 4: "\<exists>s'. run_onSuccess w now ?cb page s = Returned s'
         \<and> store_get (cache_store s') (match_url m)
             = (if \<exists>p \<in> set (directives page). pattern_removes p (match_url m) then None
                else Some ?e)"
    if a: "page_component page = route_component (route m) \<and> distinct (map fst (cache_store s))
        \<and> 1 \<le> ?mx \<and> (\<forall>p \<in> set (directives page). pattern_compiles p)"
  proof -
    from a have a3: "page_component page = route_component (route m)
        \<and> distinct (map fst (cache_store s)) \<and> 0 \<le> ?mx"
      by simp
    from 3[OF a3] a obtain st s' where
      st: "store_get st (match_url m) = Some ?e"
      and s': "run_onSuccess w now ?cb page s = Returned s'"
        "cache_store s'
           = filter (\<lambda>(key, _). \<not> (\<exists>p \<in> set (directives page). pattern_removes p key)) st"
      by blast
    have "store_get (cache_store s') (match_url m)
             = (if \<exists>p \<in> set (directives page). pattern_removes p (match_url m) then None
                else Some ?e)"
      unfolding s'(2) store_get_filter using st by simp
    with s'(1) show ?thesis
      by (intro exI[of _ s'] conjI)
  qed
  show ?thesis
    by (intro conjI impI) (fact 1, fact 2, fact 3, fact 4)
qed

text \<open>
  Claim C1 at a failing input. With the exclude pattern \<^verbatim>\<open>/admin*\<close> and the route
  \<^verbatim>\<open>/admin\<close> in the manifest, \<^verbatim>\<open>isExcluded('/admin')\<close> is true, yet a navigation to
  \<^verbatim>\<open>/admin\<close> takes the optimistic path: no call of the original \<^verbatim>\<open>router.visit\<close> during
  the call, one render, and a background request after the \<^verbatim>\<open>navigate\<close> event.
  \<^verbatim>\<open>patchedVisit\<close> never calls \<^verbatim>\<open>isExcluded\<close>.
\<close>

theorem excluded_route_not_skipped:
  "isExcluded (matcher admin_wiring) ''/admin''
   \<and> decide admin_wiring example_window 0 (HrefString ''/admin'') None (applyPatch [])
       = Optimistic \<lparr>route = admin_route, params = [], match_url = ''/admin''\<rparr>
   \<and> visits (patchedVisit admin_wiring example_window 0 (HrefString ''/admin'') None (applyPatch [])) = []
   \<and> length (renders (patchedVisit admin_wiring example_window 0 (HrefString ''/admin'') None
        (applyPatch []))) = 1
   \<and> issuers (run admin_wiring [Visit example_window 0 (HrefString ''/admin'') None, NavigateEvent]
        (applyPatch [])) = Some [Deferred 0]"
  by code_simp

text \<open>
  Claim C4 as stated fails: the server reports \<^verbatim>\<open>/users/5?tab=posts\<close> for the predicted
  \<^verbatim>\<open>/users/5\<close> with the predicted component, and the only key of the cache afterwards is
  \<^verbatim>\<open>/users/5\<close>.
\<close>

theorem page_url_is_not_the_key_counterexample:
  "page_component (server_page ''Users/Show'' ''/users/5?tab=posts'') = route_component (route users_5)
   \<and> page_url (server_page ''Users/Show'' ''/users/5?tab=posts'') \<noteq> match_url users_5
   \<and> stored_keys (run_onSuccess users_wiring 7 (BackgroundOnSuccess users_5 None)
        (server_page ''Users/Show'' ''/users/5?tab=posts'') (applyPatch [])) = Some [''/users/5'']"
  by code_simp


text \<open>
  On an empty cache the props are the pass-through function; with an entry that is long
  stale they are the props of the entry.
\<close>

theorem optimisticNavigate_props_and_loading_witness:
  "(\<exists>pg f. renders (optimisticNavigate users_wiring 0 users_5 None (applyPatch [])) = [Push pg]
        \<and> spec_component pg = ''Users/Show'' \<and> spec_url pg = ''/users/5''
        \<and> spec_props pg = PropsFunction f \<and> (\<forall>currentProps. f currentProps = currentProps))
   \<and> (\<exists>pg. renders (optimisticNavigate users_wiring 999999999 users_5 None
                 ((applyPatch [])\<lparr>cache_store := [(''/users/5'', example_page ''/users/5'' 0)]\<rparr>))
               = [Push pg]
        \<and> spec_props pg = PropsObject [(''title'', Data ''Test'')])
   \<and> isExpired (cache_ttl (config users_wiring)) 999999999 (example_page ''/users/5'' 0)
   \<and> isLoading (optimisticNavigate users_wiring 0 users_5 None (applyPatch []))
   \<and> \<not> isLoading (setLoaded (optimisticNavigate users_wiring 0 users_5 None (applyPatch [])))"
proof -
  let ?s = "applyPatch []"
  let ?t = "(applyPatch [])\<lparr>cache_store := [(''/users/5'', example_page ''/users/5'' 0)]\<rparr>"
  note a = optimisticNavigate_props_and_loading[of users_wiring 0 users_5 None ?s]
  note b = optimisticNavigate_props_and_loading[of users_wiring 999999999 users_5 None ?t]
  have u: "route_component (route users_5) = ''Users/Show''" "match_url users_5 = ''/users/5''"
    by (simp_all add: users_5_def users_show_def)
  have e: "store_get (cache_store ?s) (match_url users_5) = None" "renders ?s = []"
    by (simp_all add: applyPatch_def store_get_def)
  have c: "store_get (cache_store ?t) (match_url users_5) = Some (example_page ''/users/5'' 0)"
    "renders ?t = []" "props (example_page ''/users/5'' 0) = [(''title'', Data ''Test'')]"
    by (simp_all add: applyPatch_def store_get_def u example_page_def)
  have x: "isExpired (cache_ttl (config users_wiring)) 999999999 (example_page ''/users/5'' 0)"
    by (simp add: isExpired_def users_wiring_def example_wiring_def defaultConfig_def example_page_def)
  from a e u have 1: "\<exists>pg f. renders (optimisticNavigate users_wiring 0 users_5 None ?s) = [Push pg]
        \<and> spec_component pg = ''Users/Show'' \<and> spec_url pg = ''/users/5''
        \<and> spec_props pg = PropsFunction f \<and> (\<forall>currentProps. f currentProps = currentProps)"
    by auto
  from b c have 2: "\<exists>pg. renders (optimisticNavigate users_wiring 999999999 users_5 None ?t) = [Push pg]
        \<and> spec_props pg = PropsObject [(''title'', Data ''Test'')]"
    by auto
  from a have 3: "isLoading (optimisticNavigate users_wiring 0 users_5 None ?s)"
    "\<not> isLoading (setLoaded (optimisticNavigate users_wiring 0 users_5 None ?s))"
    by blast+
  show ?thesis using 1 2 3 x by blast
qed


text \<open>
  The test: an optimistic navigation to \<^verbatim>\<open>/users/5\<close>, then a navigation to an unknown URL;
  the timer of the first and a \<^verbatim>\<open>navigate\<close> event follow, and the only request is the
  passthrough of the second.
\<close>

theorem navigation_cancels_pending_background_witness:
  "run users_wiring [Visit example_window 0 (HrefString ''/users/5'') None] (applyPatch [])
       = Some after_first_visit
   \<and> cancelPendingBackground after_first_visit = Some 0
   \<and> loading after_first_visit
   \<and> \<not> loading (patchedVisit users_wiring example_window 5 (HrefString ''/unknown'') None
                   after_first_visit)
   \<and> issuers (run users_wiring [TimerFires 0, NavigateEvent]
        (patchedVisit users_wiring example_window 5 (HrefString ''/unknown'') None after_first_visit))
       = Some [Passthrough]
   \<and> (\<exists>s''. run users_wiring [TimerFires 0, NavigateEvent]
          (patchedVisit users_wiring example_window 5 (HrefString ''/unknown'') None after_first_visit)
           = Some s''
        \<and> Deferred 0 \<notin> call_issuer ` set (visits s''))"
proof -
  have r: "run users_wiring [Visit example_window 0 (HrefString ''/users/5'') None] (applyPatch [])
       = Some after_first_visit"
    by (simp add: step_def after_first_visit_def applyPatch_def)
  have p: "cancelPendingBackground after_first_visit = Some 0"
    by code_simp
  have l: "loading after_first_visit"
    by code_simp
  have d: "\<forall>m. decide users_wiring example_window 5 (HrefString ''/unknown'') None
       (cancel_pending after_first_visit) \<noteq> Optimistic m"
  proof -
    have "decide users_wiring example_window 5 (HrefString ''/unknown'') None
       (cancel_pending after_first_visit) = Skip"
      by code_simp
    then show ?thesis by simp
  qed
  have i: "issuers (run users_wiring [TimerFires 0, NavigateEvent]
        (patchedVisit users_wiring example_window 5 (HrefString ''/unknown'') None after_first_visit))
       = Some [Passthrough]"
    by code_simp
  note th = navigation_cancels_pending_background[OF r,
      of example_window 5 "HrefString ''/unknown''" None]
  from th p d have 1: "\<not> loading (patchedVisit users_wiring example_window 5
      (HrefString ''/unknown'') None after_first_visit)"
    by blast
  from th p have 2: "\<forall>s''. run users_wiring [TimerFires 0, NavigateEvent]
          (patchedVisit users_wiring example_window 5 (HrefString ''/unknown'') None after_first_visit)
           = Some s''
        \<longrightarrow> (\<forall>c \<in> set (visits s''). call_issuer c \<noteq> Deferred 0)"
    by blast
  from i obtain s'' where e: "run users_wiring [TimerFires 0, NavigateEvent]
          (patchedVisit users_wiring example_window 5 (HrefString ''/unknown'') None after_first_visit)
           = Some s''"
    unfolding issuers_def by (auto simp: map_option_case split: option.splits)
  have "\<forall>c \<in> set (visits s''). call_issuer c \<noteq> Deferred 0"
    by (rule 2[THEN spec, THEN mp, OF e])
  then have "Deferred 0 \<notin> call_issuer ` set (visits s'')"
    by force
  with e have 3: "\<exists>s''. run users_wiring [TimerFires 0, NavigateEvent]
          (patchedVisit users_wiring example_window 5 (HrefString ''/unknown'') None after_first_visit)
           = Some s''
        \<and> Deferred 0 \<notin> call_issuer ` set (visits s'')"
    by (intro exI[of _ s''] conjI)
  show ?thesis
    by (intro conjI) (fact r, fact p, fact l, fact 1, fact i, fact 3)
qed

text \<open>
  A response whose URL has a query string is stored under the predicted URL; a response
  with another component removes the entry of the predicted URL; a response that
  invalidates \<^verbatim>\<open>/posts/*\<close> is stored and removes \<^verbatim>\<open>/posts/1\<close>; a response that invalidates
  \<^verbatim>\<open>/users/*\<close> removes its own entry again.
\<close>

theorem background_success_cache_key_witness:
  "(\<exists>s'. run_onSuccess users_wiring 7 (BackgroundOnSuccess users_5 None)
            (server_page ''Users/Show'' ''/users/5?tab=posts'') (applyPatch []) = Returned s'
        \<and> store_get (cache_store s') ''/users/5''
            = Some \<lparr>props = [(''users'', Data ''[]'')], timestamp = 7, url = ''/users/5?tab=posts'',
                     component = ''Users/Show''\<rparr>
        \<and> store_get (cache_store s') ''/users/5?tab=posts'' = None)
   \<and> (\<exists>s'. run_onSuccess users_wiring 7 (BackgroundOnSuccess users_5 None)
            (server_page ''Auth/ConfirmPassword'' ''/confirm-password'')
            ((applyPatch [])\<lparr>cache_store := [(''/users/5'', example_page ''/users/5'' 0)]\<rparr>)
           = Returned s'
        \<and> store_get (cache_store s') ''/users/5'' = None
        \<and> \<not> loading s')
   \<and> (\<exists>s'. run_onSuccess users_wiring 7 (BackgroundOnSuccess users_5 None)
            (invalidating_page ''Users/Show'' ''/users/5'' [''/posts/*''])
            ((applyPatch [])\<lparr>cache_store := [(''/posts/1'', example_page ''/posts/1'' 0)]\<rparr>)
           = Returned s'
        \<and> cache_store s'
            = [(''/users/5'', \<lparr>props = page_props (invalidating_page ''Users/Show'' ''/users/5''
                                          [''/posts/*'']),
                              timestamp = 7, url = ''/users/5'', component = ''Users/Show''\<rparr>)])
   \<and> (\<exists>s'. run_onSuccess users_wiring 7 (BackgroundOnSuccess users_5 None)
            (invalidating_page ''Users/Show'' ''/users/5'' [''/users/*'']) (applyPatch [])
           = Returned s'
        \<and> store_get (cache_store s') ''/users/5'' = None)"
proof -
  let ?ok = "server_page ''Users/Show'' ''/users/5?tab=posts''"
  let ?redirect = "server_page ''Auth/ConfirmPassword'' ''/confirm-password''"
  let ?posts = "invalidating_page ''Users/Show'' ''/users/5'' [''/posts/*'']"
  let ?users = "invalidating_page ''Users/Show'' ''/users/5'' [''/users/*'']"
  let ?t = "(applyPatch [])\<lparr>cache_store := [(''/users/5'', example_page ''/users/5'' 0)]\<rparr>"
  let ?p = "(applyPatch [])\<lparr>cache_store := [(''/posts/1'', example_page ''/posts/1'' 0)]\<rparr>"
  note a = background_success_cache_key[of ?ok users_5 users_wiring 7 None "applyPatch []"]
  note b = background_success_cache_key[of ?redirect users_5 users_wiring 7 None ?t]
  note c = background_success_cache_key[of ?posts users_5 users_wiring 7 None ?p]
  note d = background_success_cache_key[of ?users users_5 users_wiring 7 None "applyPatch []"]
  have u: "route_component (route users_5) = ''Users/Show''" "match_url users_5 = ''/users/5''"
    by (simp_all add: users_5_def users_show_def)
  have ok: "page_component ?ok = ''Users/Show''" "page_url ?ok = ''/users/5?tab=posts''"
    "page_props ?ok = [(''users'', Data ''[]'')]" "directives ?ok = []"
    by (simp_all add: server_page_def props_invalidate_def directives_def)
  have ip: "page_component (invalidating_page ''Users/Show'' ''/users/5'' pats) = ''Users/Show''"
    "page_url (invalidating_page ''Users/Show'' ''/users/5'' pats) = ''/users/5''"
    "directives (invalidating_page ''Users/Show'' ''/users/5'' pats) = pats" for pats
    by (simp_all add: invalidating_page_def props_invalidate_def directives_def)
  have rd: "page_component ?redirect \<noteq> route_component (route users_5)"
    by (simp add: server_page_def u)
  have mx: "cache_maxEntries (config users_wiring) = 50"
    by (simp add: users_wiring_def example_wiring_def defaultConfig_def)
  have e: "cache_store (applyPatch []) = []" by (simp add: applyPatch_def)
  have pc: "pattern_compiles ''/posts/*''" "pattern_compiles ''/users/*''"
    by code_simp+
  have pr: "pattern_removes ''/posts/*'' ''/posts/1''" "\<not> pattern_removes ''/posts/*'' ''/users/5''"
    "pattern_removes ''/users/*'' ''/users/5''"
    by code_simp+
  have h4: "page_component ?ok = route_component (route users_5)
      \<and> distinct (map fst (cache_store (applyPatch [])))
      \<and> 1 \<le> cache_maxEntries (config users_wiring)
      \<and> (\<forall>p \<in> set (directives ?ok). pattern_compiles p)"
    by (simp add: u ok mx e)
  have h2: "page_component ?ok = route_component (route users_5)
      \<and> distinct (map fst (cache_store (applyPatch [])))
      \<and> 0 \<le> cache_maxEntries (config users_wiring)"
    by (simp add: u ok mx e)
  from mp[OF a[THEN conjunct2, THEN conjunct2, THEN conjunct2] h4]
  obtain s' where s': "run_onSuccess users_wiring 7 (BackgroundOnSuccess (users_5) (map_option AppOnSuccess None))
      ?ok (applyPatch []) = Returned s'"
      "store_get (cache_store s') (match_url users_5)
          = (if \<exists>p \<in> set (directives ?ok). pattern_removes p (match_url users_5) then None
             else Some \<lparr>props = page_props ?ok, timestamp = 7, url = page_url ?ok,
                   component = page_component ?ok\<rparr>)"
    by blast
  from mp[OF a[THEN conjunct2, THEN conjunct1] h2]
  obtain t' where t': "run_onSuccess users_wiring 7 (BackgroundOnSuccess (users_5) (map_option AppOnSuccess None))
      ?ok (applyPatch []) = Returned t'
      \<or> (\<exists>e. run_onSuccess users_wiring 7 (BackgroundOnSuccess (users_5) (map_option AppOnSuccess None))
      ?ok (applyPatch []) = Threw e t')"
      "\<forall>u e. store_get (cache_store t') u = Some e \<longrightarrow>
               (u = match_url users_5 \<and> e = \<lparr>props = page_props ?ok, timestamp = 7,
                                         url = page_url ?ok, component = page_component ?ok\<rparr>)
               \<or> store_get (cache_store (applyPatch [])) u = Some e"
    by blast
  have tt: "t' = s'" using t'(1) s'(1) by auto
  have n: "store_get (cache_store s') ''/users/5?tab=posts'' = None"
  proof (cases "store_get (cache_store s') ''/users/5?tab=posts''")
    case None
    then show ?thesis .
  next
    case (Some x)
    from t'(2)[rule_format, of "''/users/5?tab=posts''" x] Some tt
    show ?thesis by (simp add: u e store_get_def)
  qed
  have 1: "\<exists>s'. run_onSuccess users_wiring 7 (BackgroundOnSuccess users_5 None) ?ok
        (applyPatch []) = Returned s'
        \<and> store_get (cache_store s') ''/users/5''
            = Some \<lparr>props = [(''users'', Data ''[]'')], timestamp = 7, url = ''/users/5?tab=posts'',
                     component = ''Users/Show''\<rparr>
        \<and> store_get (cache_store s') ''/users/5?tab=posts'' = None"
    using s' n by (simp add: u ok)
  from mp[OF b[THEN conjunct1] rd]
  obtain r' where r': "run_onSuccess users_wiring 7 (BackgroundOnSuccess (users_5) (map_option AppOnSuccess None))
      ?redirect ?t = Returned r'"
      "store_get (cache_store r') (match_url users_5) = None" "\<not> loading r'"
    by blast
  then have 2: "\<exists>s'. run_onSuccess users_wiring 7 (BackgroundOnSuccess users_5 None) ?redirect ?t
           = Returned s'
        \<and> store_get (cache_store s') ''/users/5'' = None \<and> \<not> loading s'"
    by (simp add: u)
  have h3: "page_component ?posts = route_component (route users_5)
      \<and> distinct (map fst (cache_store ?p))
      \<and> 0 \<le> cache_maxEntries (config users_wiring)"
    by (simp add: u ip mx)
  have cs: "cache_set (cache_maxEntries (config users_wiring)) (match_url users_5)
       \<lparr>props = page_props ?posts, timestamp = 7, url = page_url ?posts,
          component = page_component ?posts\<rparr> (cache_store ?p)
      = Some [(''/posts/1'', example_page ''/posts/1'' 0),
              (''/users/5'', \<lparr>props = page_props ?posts, timestamp = 7, url = ''/users/5'',
                               component = ''Users/Show''\<rparr>)]"
    by (simp add: mx u ip cache_set_def store_delete_def store_set_def)
  from mp[OF c[THEN conjunct2, THEN conjunct2, THEN conjunct1] h3]
  obtain st where st: "cache_set (cache_maxEntries (config users_wiring)) (match_url users_5)
       \<lparr>props = page_props ?posts, timestamp = 7, url = page_url ?posts,
          component = page_component ?posts\<rparr> (cache_store ?p) = Some st"
    and ret: "(\<forall>p \<in> set (directives ?posts). pattern_compiles p) \<longrightarrow>
       (\<exists>s'. run_onSuccess users_wiring 7 (BackgroundOnSuccess users_5 (map_option AppOnSuccess None))
                ?posts ?p = Returned s'
          \<and> cache_store s'
              = filter (\<lambda>(key, _). \<not> (\<exists>p \<in> set (directives ?posts). pattern_removes p key)) st
          \<and> \<not> loading s'
          \<and> app_calls s' = app_calls ?p @ (case None of None \<Rightarrow> [] | Some j \<Rightarrow> [(j, ArgPage ?posts)]))"
    by blast
  from st cs have st_eq: "st = [(''/posts/1'', example_page ''/posts/1'' 0),
              (''/users/5'', \<lparr>props = page_props ?posts, timestamp = 7, url = ''/users/5'',
                               component = ''Users/Show''\<rparr>)]"
    by simp
  from ret pc(1) obtain q' where q': "run_onSuccess users_wiring 7
        (BackgroundOnSuccess users_5 (map_option AppOnSuccess None)) ?posts ?p = Returned q'"
      "cache_store q'
         = filter (\<lambda>(key, _). \<not> (\<exists>p \<in> set (directives ?posts). pattern_removes p key)) st"
    by (auto simp: ip)
  have 3: "\<exists>s'. run_onSuccess users_wiring 7 (BackgroundOnSuccess users_5 None) ?posts ?p
           = Returned s'
        \<and> cache_store s'
            = [(''/users/5'', \<lparr>props = page_props ?posts, timestamp = 7, url = ''/users/5'',
                              component = ''Users/Show''\<rparr>)]"
  proof (intro exI[of _ q'] conjI)
    show "run_onSuccess users_wiring 7 (BackgroundOnSuccess users_5 None) ?posts ?p = Returned q'"
      by (rule q'(1)[unfolded option.map])
    show "cache_store q'
            = [(''/users/5'', \<lparr>props = page_props ?posts, timestamp = 7, url = ''/users/5'',
                              component = ''Users/Show''\<rparr>)]"
      unfolding q'(2) st_eq by (simp add: ip pr)
  qed
  have h5: "page_component ?users = route_component (route users_5)
      \<and> distinct (map fst (cache_store (applyPatch [])))
      \<and> 1 \<le> cache_maxEntries (config users_wiring)
      \<and> (\<forall>p \<in> set (directives ?users). pattern_compiles p)"
    by (simp add: u ip mx e pc)
  from mp[OF d[THEN conjunct2, THEN conjunct2, THEN conjunct2] h5]
  obtain v' where v': "run_onSuccess users_wiring 7 (BackgroundOnSuccess (users_5) (map_option AppOnSuccess None))
      ?users (applyPatch []) = Returned v'"
      "store_get (cache_store v') (match_url users_5)
          = (if \<exists>p \<in> set (directives ?users). pattern_removes p (match_url users_5) then None
             else Some \<lparr>props = page_props ?users, timestamp = 7, url = page_url ?users,
                   component = page_component ?users\<rparr>)"
    by blast
  have 4: "\<exists>s'. run_onSuccess users_wiring 7 (BackgroundOnSuccess users_5 None) ?users (applyPatch [])
           = Returned s'
        \<and> store_get (cache_store s') ''/users/5'' = None"
  proof (intro exI[of _ v'] conjI)
    show "run_onSuccess users_wiring 7 (BackgroundOnSuccess users_5 None) ?users (applyPatch [])
           = Returned v'"
      by (rule v'(1)[unfolded option.map])
    show "store_get (cache_store v') ''/users/5'' = None"
      using v'(2) by (simp add: u ip pr)
  qed
  show ?thesis by (intro conjI) (fact 1, fact 2, fact 3, fact 4)
qed

end
